theory Spec2Isabelle
  imports Main
begin

section \<open>Strings and the alphabet tables of truth.py\<close>

text \<open>
  A Python \<open>str\<close> is a sequence of Unicode code points, so a string is modelled as a
  list of code points and a one-character string as its code point.  Python integers
  are unbounded and are modelled by \<open>int\<close>.
\<close>

type_synonym codepoint = nat
type_synonym str = "codepoint list"

datatype error = TypeError | ValueError | OverflowError | KeyError

text \<open>
  \<open>ALPHABET_HEBREU\<close>, in the order of the dictionary literal: the 22 letters
  U+05D0 .. U+05EA without the final forms, then the five final forms
  U+05DA, U+05DD, U+05DF, U+05E3, U+05E5.
\<close>

definition ALPHABET_HEBREU :: "codepoint \<rightharpoonup> int" where
  "ALPHABET_HEBREU = map_of
     [(1488, 1), (1489, 2), (1490, 3), (1491, 4), (1492, 5),
      (1493, 6), (1494, 7), (1495, 8), (1496, 9), (1497, 10),
      (1499, 11), (1500, 12), (1502, 13), (1504, 14), (1505, 15),
      (1506, 16), (1508, 17), (1510, 18), (1511, 19), (1512, 20),
      (1513, 21), (1514, 22),
      (1498, 11), (1501, 13), (1503, 14), (1507, 17), (1509, 18)]"

text \<open>\<open>ALPHABET_INVERSE\<close>: values 1 .. 22 to the non-final letters.\<close>

definition ALPHABET_INVERSE :: "int \<rightharpoonup> codepoint" where
  "ALPHABET_INVERSE = map_of
     [(1, 1488), (2, 1489), (3, 1490), (4, 1491), (5, 1492),
      (6, 1493), (7, 1494), (8, 1495), (9, 1496), (10, 1497),
      (11, 1499), (12, 1500), (13, 1502), (14, 1504), (15, 1505),
      (16, 1506), (17, 1508), (18, 1510), (19, 1511), (20, 1512),
      (21, 1513), (22, 1514)]"

text \<open>\<open>lettre in ALPHABET_HEBREU\<close>.\<close>

definition in_alphabet :: "codepoint \<Rightarrow> bool" where
  "in_alphabet lettre = (ALPHABET_HEBREU lettre \<noteq> None)"

text \<open>
  \<open>str.strip()\<close> without argument removes leading and trailing whitespace; the
  whitespace code points are those of CPython's \<open>_PyUnicode_IsWhitespace\<close>.
\<close>

definition isspace :: "codepoint \<Rightarrow> bool" where
  "isspace c = ((9 \<le> c \<and> c \<le> 13) \<or> (28 \<le> c \<and> c \<le> 32) \<or> c = 133 \<or> c = 160
     \<or> c = 5760 \<or> (8192 \<le> c \<and> c \<le> 8202) \<or> c = 8232 \<or> c = 8233
     \<or> c = 8239 \<or> c = 8287 \<or> c = 12288)"

definition strip :: "str \<Rightarrow> str" where
  "strip s = rev (dropWhile isspace (rev (dropWhile isspace s)))"

section \<open>Gematria summation\<close>

text \<open>The loop of \<open>mot_vers_nombre\<close>, with the running \<open>total\<close> (named \<open>total_v\<close> here).\<close>

fun mot_vers_nombre_loop :: "str \<Rightarrow> int \<Rightarrow> int" where
  "mot_vers_nombre_loop [] total_v = total_v"
| "mot_vers_nombre_loop (lettre # rest) total_v =
     (case ALPHABET_HEBREU lettre of
        Some v \<Rightarrow> mot_vers_nombre_loop rest (total_v + v)
      | None \<Rightarrow> mot_vers_nombre_loop rest total_v)"

definition mot_vers_nombre :: "str \<Rightarrow> int" where
  "mot_vers_nombre mot = mot_vers_nombre_loop (strip mot) 0"

text \<open>The contribution of one character to the sum: its table value, or 0.\<close>

definition valeur :: "codepoint \<Rightarrow> int" where
  "valeur c = (case ALPHABET_HEBREU c of Some v \<Rightarrow> v | None \<Rightarrow> 0)"


section \<open>Character properties and string primitives\<close>

text \<open>
  \<open>str.isalpha\<close>, \<open>str.upper\<close>, \<open>str.isdigit\<close> and \<open>int\<close> consult the Unicode
  character database of the interpreter.  On ASCII they are fixed and written out; for
  the code points from 128 on, the tables are a parameter of the model:
  \<open>alpha_ext c\<close> says whether \<open>c\<close> is a letter (general category L), \<open>upper_ext c\<close> is
  the full uppercase mapping of \<open>c\<close> (one or more code points), \<open>digit_ext c\<close> whether
  \<open>c\<close> has the property Numeric_Type Digit or Decimal, and \<open>decimal_ext c\<close> the decimal
  digit value of \<open>c\<close>, if it has one.
\<close>

record unicode_db =
  alpha_ext :: "codepoint \<Rightarrow> bool"
  upper_ext :: "codepoint \<Rightarrow> str"
  digit_ext :: "codepoint \<Rightarrow> bool"
  decimal_ext :: "codepoint \<Rightarrow> nat option"

definition isalpha :: "unicode_db \<Rightarrow> codepoint \<Rightarrow> bool" where
  "isalpha db c =
     (if c < 128 then (65 \<le> c \<and> c \<le> 90) \<or> (97 \<le> c \<and> c \<le> 122) else alpha_ext db c)"

definition upper :: "unicode_db \<Rightarrow> codepoint \<Rightarrow> str" where
  "upper db c =
     (if c < 128 then (if 97 \<le> c \<and> c \<le> 122 then [c - 32] else [c]) else upper_ext db c)"

definition isdigit_cp :: "unicode_db \<Rightarrow> codepoint \<Rightarrow> bool" where
  "isdigit_cp db c = (if c < 128 then 48 \<le> c \<and> c \<le> 57 else digit_ext db c)"

definition decimal :: "unicode_db \<Rightarrow> codepoint \<Rightarrow> nat option" where
  "decimal db c =
     (if c < 128 then (if 48 \<le> c \<and> c \<le> 57 then Some (c - 48) else None)
      else decimal_ext db c)"

text \<open>\<open>s.isdigit()\<close>: the string is not empty and all its characters are digits.\<close>

definition isdigit :: "unicode_db \<Rightarrow> str \<Rightarrow> bool" where
  "isdigit db s = (s \<noteq> [] \<and> list_all (isdigit_cp db) s)"

text \<open>
  \<open>int(s)\<close> for a string that passed \<open>isdigit\<close> (so without sign, blank or
  underscore).  \<open>ValueError\<close> is raised if the string has more characters than the
  interpreter's limit for the conversion of strings to integers (4300, the default of
  \<open>sys.get_int_max_str_digits()\<close>, which the program does not change), and if a
  character has no decimal digit value.
\<close>

definition int_max_str_digits :: nat where
  "int_max_str_digits = 4300"

fun int_digits :: "unicode_db \<Rightarrow> str \<Rightarrow> int \<Rightarrow> error + int" where
  "int_digits db [] acc = Inr acc"
| "int_digits db (c # cs) acc =
     (case decimal db c of
        None \<Rightarrow> Inl ValueError
      | Some d \<Rightarrow> int_digits db cs (10 * acc + int d))"

definition int_str :: "unicode_db \<Rightarrow> str \<Rightarrow> error + int" where
  "int_str db s =
     (if s = [] \<or> int_max_str_digits < length s then Inl ValueError
      else int_digits db s 0)"

text \<open>
  \<open>str(n)\<close> for an integer: decimal digits, with a minus sign (45) if negative.
  The same limit makes \<open>str(n)\<close> raise from \<open>10 ^ 4300\<close> on.  The integers that the
  program converts to strings are table values, code points, and the value of a word,
  which is below \<open>2 ^ 68\<close> for a word of at most \<open>2 ^ 63 - 1\<close> characters (the longest
  string there is); in \<open>analyser_nombre\<close> the conversion comes after \<open>is_prime\<close>,
  which raises from \<open>2 ^ 1024\<close> on, and for a negative number \<open>int\<close> raises the same
  exception on the minus sign.  So the limit of \<open>str\<close> is never met first.
\<close>

function str_nat :: "nat \<Rightarrow> str" where
  "str_nat n = (if n < 10 then [48 + n] else str_nat (n div 10) @ [48 + n mod 10])"
  by pat_completeness auto
termination
  by (relation "measure id") auto

declare str_nat.simps [simp del]

definition str_int :: "int \<Rightarrow> str" where
  "str_int i = (if i < 0 then 45 # str_nat (nat (- i)) else str_nat (nat i))"

text \<open>\<open>ord(s)\<close> raises \<open>TypeError\<close> unless \<open>s\<close> has length one.\<close>

fun ord :: "str \<Rightarrow> error + int" where
  "ord [c] = Inr (int c)"
| "ord s = Inl TypeError"

text \<open>\<open>chr(i)\<close> raises \<open>ValueError\<close> outside \<open>range(0x110000)\<close>.\<close>

definition chr :: "int \<Rightarrow> error + codepoint" where
  "chr i = (if 0 \<le> i \<and> i < 1114112 then Inr (nat i) else Inl ValueError)"

text \<open>\<open>s.split(sep)\<close> for a one-character separator: never an empty list.\<close>

fun split :: "codepoint \<Rightarrow> str \<Rightarrow> str list" where
  "split sep [] = [[]]"
| "split sep (c # cs) =
     (if c = sep then [] # split sep cs
      else (case split sep cs of
              t # ts \<Rightarrow> (c # t) # ts
            | [] \<Rightarrow> [[c]]))"

text \<open>\<open>sep.join(xs)\<close>.\<close>

fun join :: "str \<Rightarrow> str list \<Rightarrow> str" where
  "join sep [] = []"
| "join sep [x] = x"
| "join sep (x # y # ys) = x @ sep @ join sep (y # ys)"

section \<open>Encoder and decoder\<close>

text \<open>
  The loop of \<open>encoder_mot_hebreu\<close> over the stripped word, with the list
  \<open>resultat\<close>.  \<open>ord(lettre.upper())\<close> raises \<open>TypeError\<close> when the uppercase
  mapping of the letter is longer than one character.
\<close>

fun encoder_loop :: "unicode_db \<Rightarrow> str \<Rightarrow> str list \<Rightarrow> error + str list" where
  "encoder_loop db [] resultat = Inr resultat"
| "encoder_loop db (lettre # rest) resultat =
     (case ALPHABET_HEBREU lettre of
        Some numero \<Rightarrow> encoder_loop db rest (resultat @ [str_int numero])
      | None \<Rightarrow>
          if isalpha db lettre then
            (case ord (upper db lettre) of
               Inl e \<Rightarrow> Inl e
             | Inr u \<Rightarrow> encoder_loop db rest (resultat @ [str_int (u - 65 + 1)]))
          else encoder_loop db rest resultat)"

definition encoder_mot_hebreu :: "unicode_db \<Rightarrow> str \<Rightarrow> error + str" where
  "encoder_mot_hebreu db mot =
     (case encoder_loop db (strip mot) [] of
        Inl e \<Rightarrow> Inl e
      | Inr resultat \<Rightarrow> Inr (join [46] resultat))"

text \<open>
  The loop of \<open>decoder_sequence_hebreu\<close> over the tokens, with the decoded letters
  \<open>mot_decode\<close> (one-character strings, joined by the empty string at the end).
\<close>

fun decoder_loop :: "unicode_db \<Rightarrow> str list \<Rightarrow> str \<Rightarrow> error + str" where
  "decoder_loop db [] mot_decode = Inr mot_decode"
| "decoder_loop db (nombre # rest) mot_decode =
     (if isdigit db nombre then
        (case int_str db nombre of
           Inl e \<Rightarrow> Inl e
         | Inr numero \<Rightarrow>
             if 1 \<le> numero \<and> numero \<le> 22 then
               (case ALPHABET_INVERSE numero of
                  None \<Rightarrow> Inl KeyError
                | Some lettre \<Rightarrow> decoder_loop db rest (mot_decode @ [lettre]))
             else if 1 \<le> numero \<and> numero \<le> 26 then
               (case chr (numero + 65 - 1) of
                  Inl e \<Rightarrow> Inl e
                | Inr lettre \<Rightarrow> decoder_loop db rest (mot_decode @ [lettre]))
             else decoder_loop db rest mot_decode)
      else decoder_loop db rest mot_decode)"

definition decoder_sequence_hebreu :: "unicode_db \<Rightarrow> str \<Rightarrow> error + str" where
  "decoder_sequence_hebreu db sequence = decoder_loop db (split 46 sequence) []"

text \<open>
  \<open>analyser_mot_hebreu\<close> decodes the encoder's output again
  (\<open>results['mot_decode']\<close>): the decoder applied to the encoded word.
\<close>

definition decode_encode :: "unicode_db \<Rightarrow> str \<Rightarrow> error + str" where
  "decode_encode db mot =
     (case encoder_mot_hebreu db mot of
        Inl e \<Rightarrow> Inl e
      | Inr sequence_hebreu \<Rightarrow> decoder_sequence_hebreu db sequence_hebreu)"

text \<open>The non-final letter of a final form; every other code point is kept.\<close>

definition base_letter :: "codepoint \<Rightarrow> codepoint" where
  "base_letter c =
     (if c = 1498 then 1499 else if c = 1501 then 1502 else if c = 1503 then 1504
      else if c = 1507 then 1508 else if c = 1509 then 1510 else c)"

definition final_form :: "codepoint \<Rightarrow> bool" where
  "final_form c = (c = 1498 \<or> c = 1501 \<or> c = 1503 \<or> c = 1507 \<or> c = 1509)"

text \<open>
  What one token contributes to the decoded word when no error is raised, and the
  values the encoder emits for one character when no error is raised.
\<close>

definition token_letters :: "unicode_db \<Rightarrow> str \<Rightarrow> str" where
  "token_letters db t =
     (if isdigit db t then
        (case int_str db t of
           Inl e \<Rightarrow> []
         | Inr v \<Rightarrow>
             if 1 \<le> v \<and> v \<le> 22 then
               (case ALPHABET_INVERSE v of None \<Rightarrow> [] | Some lettre \<Rightarrow> [lettre])
             else if 23 \<le> v \<and> v \<le> 26 then [nat (v + 65 - 1)]
             else [])
      else [])"

definition letter_values :: "unicode_db \<Rightarrow> codepoint \<Rightarrow> int list" where
  "letter_values db c =
     (case ALPHABET_HEBREU c of
        Some v \<Rightarrow> [v]
      | None \<Rightarrow>
          if isalpha db c then
            (case upper db c of [u] \<Rightarrow> [int u - 65 + 1] | _ \<Rightarrow> [])
          else [])"

text \<open>
  The Unicode tables restricted to the code points below 256 and the Hebrew letters
  U+05D0 .. U+05EA, for evaluating the functions on concrete strings; every other
  code point is treated as unassigned.  The letters of Latin-1 are U+00AA, U+00B5,
  U+00BA, U+00C0 .. U+00D6, U+00D8 .. U+00F6 and U+00F8 .. U+00FF; the uppercase of
  U+00DF (sharp s) is the two letters SS, that of U+00B5 is U+039C, that of U+00FF is
  U+0178; the superscripts U+00B2, U+00B3 and U+00B9 are digits without a decimal
  value.
\<close>

definition ucd_latin1 :: unicode_db where
  "ucd_latin1 =
     \<lparr> alpha_ext = (\<lambda>c. c = 170 \<or> c = 181 \<or> c = 186 \<or> (192 \<le> c \<and> c \<le> 214)
                        \<or> (216 \<le> c \<and> c \<le> 246) \<or> (248 \<le> c \<and> c \<le> 255)
                        \<or> (1488 \<le> c \<and> c \<le> 1514)),
       upper_ext = (\<lambda>c. if c = 223 then [83, 83]
                        else if c = 181 then [924]
                        else if c = 255 then [376]
                        else if (224 \<le> c \<and> c \<le> 246) \<or> (248 \<le> c \<and> c \<le> 254) then [c - 32]
                        else [c]),
       digit_ext = (\<lambda>c. c = 178 \<or> c = 179 \<or> c = 185),
       decimal_ext = (\<lambda>c. None) \<rparr>"

section \<open>Palindrome and letter-set analysis\<close>

definition est_palindrome_hebreu :: "str \<Rightarrow> bool" where
  "est_palindrome_hebreu mot =
     (let mot_nettoye = filter in_alphabet (strip mot) in mot_nettoye = rev mot_nettoye)"

definition compter_lettres_hebreu :: "str \<Rightarrow> nat" where
  "compter_lettres_hebreu mot = length (filter in_alphabet mot)"

text \<open>
  \<open>lettres_uniques_hebreu\<close> sorts \<open>set(lettres)\<close> with the table value as key.  The
  order in which a Python set yields its elements is not specified (it depends on the
  hashes of the strings), so it is a parameter: \<open>set_iter lettres\<close> is the list of the
  elements of \<open>set(lettres)\<close> in iteration order.  \<open>sorted\<close> is stable, as is
  \<open>sort_key\<close>; the key \<open>ALPHABET_HEBREU[x]\<close> raises \<open>KeyError\<close> outside the table.
\<close>

definition lettres_uniques_hebreu :: "(str \<Rightarrow> str) \<Rightarrow> str \<Rightarrow> error + str" where
  "lettres_uniques_hebreu set_iter mot =
     (let lettres = filter in_alphabet mot;
          elems = set_iter lettres
      in if list_all in_alphabet elems then Inr (sort_key valeur elems) else Inl KeyError)"

section \<open>Factorisation\<close>

text \<open>
  \<open>factorize\<close> has two nested \<open>while\<close> loops.  Taken by itself the inner loop need
  not stop (it runs forever on \<open>n = 0\<close>), so both loops are partial functions into
  \<open>option\<close>, where \<open>None\<close> stands for a loop that never returns; that \<open>factorize\<close>
  returns on every input is proved below.  The inner loop divides \<open>n\<close> by \<open>d\<close> while
  \<open>n % d == 0\<close> and returns the new \<open>n\<close> and \<open>factors\<close>; the outer loop runs while
  \<open>d * d <= n\<close>.  On the positive divisors that occur, Python's \<open>%\<close> and \<open>//\<close> are
  \<open>mod\<close> and \<open>div\<close> on \<open>int\<close>.
\<close>

partial_function (option)
  factorize_inner :: "int \<Rightarrow> int \<Rightarrow> int list \<Rightarrow> (int \<times> int list) option" where
  "factorize_inner n d factors =
     (if n mod d = 0 then factorize_inner (n div d) d (factors @ [d])
      else Some (n, factors))"

partial_function (option)
  factorize_outer :: "int \<Rightarrow> int \<Rightarrow> int list \<Rightarrow> (int \<times> int list) option" where
  "factorize_outer n d factors =
     (if d * d \<le> n then
        (case factorize_inner n d factors of
           None \<Rightarrow> None
         | Some (n', factors') \<Rightarrow> factorize_outer n' (d + 1) factors')
      else Some (n, factors))"

declare factorize_inner.simps [code]
declare factorize_outer.simps [code]

definition factorize :: "int \<Rightarrow> int list option" where
  "factorize n =
     (if n < 2 then Some [n]
      else (case factorize_outer n 2 [] of
              None \<Rightarrow> None
            | Some (n', factors) \<Rightarrow> Some (if n' > 1 then factors @ [n'] else factors)))"

text \<open>A prime number: at least 2 and without a divisor from 2 up to itself.\<close>

definition is_prime_number :: "int \<Rightarrow> bool" where
  "is_prime_number p = (2 \<le> p \<and> (\<forall>k \<in> {2..<p}. \<not> k dvd p))"

section \<open>Primality test\<close>

text \<open>
  \<open>is_prime\<close> takes its loop bound from \<open>int(math.sqrt(n))\<close>, a computation in IEEE 754
  double precision.  The three steps are modelled exactly, in integer arithmetic:
  the conversion of the integer to the nearest double (ties to even; \<open>OverflowError\<close>
  from \<open>2 ^ 1024\<close> on), the correctly rounded square root of that double, and the
  truncation of the result to an integer.  A finite double is \<open>Finite m e\<close>, standing
  for \<open>m * 2 ^ e\<close>.
\<close>

datatype pyfloat = Finite int int | NaN

function bit_length :: "int \<Rightarrow> nat" where
  "bit_length n = (if n \<le> 0 then 0 else Suc (bit_length (n div 2)))"
  by pat_completeness auto
termination
  by (relation "measure nat") auto

declare bit_length.simps [simp del]

text \<open>
  \<open>round_half_even x s sticky\<close>: the integer nearest to \<open>(x + f) / 2 ^ s\<close>, ties to
  even, where \<open>0 \<le> f < 1\<close> and \<open>sticky\<close> says whether \<open>f > 0\<close>.
\<close>

definition round_half_even :: "int \<Rightarrow> nat \<Rightarrow> bool \<Rightarrow> int" where
  "round_half_even x s sticky =
     (let q = x div 2 ^ s; r = x mod 2 ^ s; half = 2 ^ (s - 1)
      in if 0 < s \<and> (half < r \<or> (r = half \<and> (sticky \<or> odd q))) then q + 1 else q)"

text \<open>
  The value of the double nearest to a non-negative integer (\<open>PyLong_AsDouble\<close>):
  exact up to 53 bits, rounded to 53 significant bits beyond, and an error if the
  rounded value does not fit.
\<close>

definition double_of_int :: "int \<Rightarrow> error + int" where
  "double_of_int n =
     (let b = bit_length n
      in if b \<le> 53 then Inr n
         else (let s = b - 53; x = round_half_even n s False * 2 ^ s
               in if 2 ^ 1024 \<le> x then Inl OverflowError else Inr x))"

text \<open>The integer square root, rounded down (used to state the exact rounding).\<close>

function isqrt :: "int \<Rightarrow> int" where
  "isqrt n =
     (if n < 1 then 0 else if n < 4 then 1
      else (let r = 2 * isqrt (n div 4) in if (r + 1) * (r + 1) \<le> n then r + 1 else r))"
  by pat_completeness auto
termination
  by (relation "measure nat") auto

declare isqrt.simps [simp del]

text \<open>
  The double nearest to the square root of a double with non-negative integer value
  \<open>x\<close>: the root of \<open>x * 2 ^ 128\<close> has at least 64 bits, of which 53 are kept.
\<close>

definition sqrt_double :: "int \<Rightarrow> pyfloat" where
  "sqrt_double x =
     (if x \<le> 0 then Finite 0 0
      else (let y = x * 2 ^ 128; r = isqrt y; s = bit_length r - 53;
                m = round_half_even r s (r * r \<noteq> y)
            in Finite m (int s - 64)))"

text \<open>\<open>math.sqrt\<close> on an integer argument; \<open>ValueError\<close> on a negative one.\<close>

definition math_sqrt :: "int \<Rightarrow> error + pyfloat" where
  "math_sqrt n =
     (case double_of_int \<bar>n\<bar> of
        Inl e \<Rightarrow> Inl e
      | Inr x \<Rightarrow> if n < 0 then Inl ValueError else Inr (sqrt_double x))"

text \<open>\<open>int(x)\<close> for a float: truncation towards zero.\<close>

fun int_of_float :: "pyfloat \<Rightarrow> error + int" where
  "int_of_float NaN = Inl ValueError"
| "int_of_float (Finite m e) =
     Inr (if 0 \<le> e then m * 2 ^ nat e
          else if 0 \<le> m then m div 2 ^ nat (- e) else - ((- m) div 2 ^ nat (- e)))"

text \<open>The \<open>for\<close> loop of \<open>is_prime\<close> over \<open>range(2, int(math.sqrt(n)) + 1)\<close>.\<close>

fun is_prime_loop :: "int \<Rightarrow> int list \<Rightarrow> bool" where
  "is_prime_loop n [] = True"
| "is_prime_loop n (i # rest) = (if n mod i = 0 then False else is_prime_loop n rest)"

definition is_prime :: "int \<Rightarrow> error + bool" where
  "is_prime n =
     (if n < 2 then Inr False
      else (case math_sqrt n of
              Inl e \<Rightarrow> Inl e
            | Inr root \<Rightarrow>
                (case int_of_float root of
                   Inl e \<Rightarrow> Inl e
                 | Inr r \<Rightarrow> Inr (is_prime_loop n [2..r]))))"


section \<open>Number and word analysis\<close>

text \<open>
  The result dictionary of \<open>analyser_nombre\<close>.  The fields \<open>hexadecimal\<close>, \<open>binary\<close>,
  \<open>octal\<close> and \<open>signification_gematria\<close> are left out (they are computed from
  \<open>nombre\<close> by calls that raise nothing); of \<open>md5\<close>, \<open>sha256\<close> and \<open>base64\<close> the model
  keeps the argument they are all applied to, the characters of \<open>str(nombre)\<close>.
  \<open>res_parity_odd\<close> stands for the label Odd, \<open>res_prime\<close> for the label Prime.
\<close>

record nombre_results =
  res_decimal :: int
  res_parity_odd :: bool
  res_factors :: "int list"
  res_prime :: bool
  res_digit_sum :: int
  res_digit_count :: nat
  res_square :: int
  res_cube :: int
  res_square_root :: pyfloat
  res_digest_input :: str
  res_valeur_gematria :: int

text \<open>\<open>sum(int(d) for d in str(nombre))\<close>: \<open>int\<close> raises on the minus sign.\<close>

fun digit_sum :: "unicode_db \<Rightarrow> str \<Rightarrow> int \<Rightarrow> error + int" where
  "digit_sum db [] acc = Inr acc"
| "digit_sum db (d # ds) acc =
     (case int_str db [d] of
        Inl e \<Rightarrow> Inl e
      | Inr v \<Rightarrow> digit_sum db ds (acc + v))"

text \<open>
  \<open>analyser_nombre\<close>, in the order of the source: \<open>factorize\<close> (\<open>None\<close> if it does not
  return), \<open>is_prime\<close>, the digit sum, and the square root, which is \<open>NaN\<close> for a
  negative number.
\<close>

definition analyser_nombre :: "unicode_db \<Rightarrow> int \<Rightarrow> (error + nombre_results) option" where
  "analyser_nombre db nombre =
     (case factorize nombre of
        None \<Rightarrow> None
      | Some factors \<Rightarrow> Some
          (case is_prime nombre of
             Inl e \<Rightarrow> Inl e
           | Inr prime \<Rightarrow>
               (case digit_sum db (str_int nombre) 0 of
                  Inl e \<Rightarrow> Inl e
                | Inr dsum \<Rightarrow>
                    (case (if nombre \<ge> 0 then math_sqrt nombre else Inr NaN) of
                       Inl e \<Rightarrow> Inl e
                     | Inr root \<Rightarrow> Inr
                         \<lparr> res_decimal = nombre,
                           res_parity_odd = (nombre mod 2 \<noteq> 0),
                           res_factors = factors,
                           res_prime = prime,
                           res_digit_sum = dsum,
                           res_digit_count = length (str_int nombre),
                           res_square = nombre ^ 2,
                           res_cube = nombre ^ 3,
                           res_square_root = root,
                           res_digest_input = str_int nombre,
                           res_valeur_gematria = nombre \<rparr>))))"

text \<open>The result dictionary of \<open>analyser_mot_hebreu\<close>; the number analysis is nested.\<close>

record mot_results =
  res_mot_original :: str
  res_longueur_mot :: nat
  res_sequence_hebreu :: str
  res_valeur_numerique :: int
  res_mot_decode :: str
  res_est_palindrome :: bool
  res_nombre_lettres :: nat
  res_lettres_uniques :: str
  res_gematria_valeur_simple :: int
  res_gematria_valeur_miloui :: int
  res_gematria_description :: str
  res_nombre :: nombre_results

text \<open>\<open>calculer_gematria\<close>: simple value, miloui value, and the description string.\<close>

definition calculer_gematria :: "str \<Rightarrow> int \<times> int \<times> str" where
  "calculer_gematria mot =
     (let valeur_simple = mot_vers_nombre (strip mot)
      in (valeur_simple, valeur_simple,
          [71, 101, 109, 97, 116, 114, 105, 97, 58, 32] @ str_int valeur_simple))"

definition analyser_mot_hebreu ::
  "unicode_db \<Rightarrow> (str \<Rightarrow> str) \<Rightarrow> str \<Rightarrow> (error + mot_results) option" where
  "analyser_mot_hebreu db set_iter mot =
     (case encoder_mot_hebreu db mot of
        Inl e \<Rightarrow> Some (Inl e)
      | Inr seq \<Rightarrow>
          (case decoder_sequence_hebreu db seq of
             Inl e \<Rightarrow> Some (Inl e)
           | Inr dec \<Rightarrow>
               (case lettres_uniques_hebreu set_iter mot of
                  Inl e \<Rightarrow> Some (Inl e)
                | Inr uniques \<Rightarrow>
                    (case calculer_gematria mot of
                       (simple, miloui, description) \<Rightarrow>
                         (case analyser_nombre db (mot_vers_nombre mot) of
                            None \<Rightarrow> None
                          | Some (Inl e) \<Rightarrow> Some (Inl e)
                          | Some (Inr nr) \<Rightarrow> Some (Inr
                              \<lparr> res_mot_original = mot,
                                res_longueur_mot = length mot,
                                res_sequence_hebreu = seq,
                                res_valeur_numerique = mot_vers_nombre mot,
                                res_mot_decode = dec,
                                res_est_palindrome = est_palindrome_hebreu mot,
                                res_nombre_lettres = compter_lettres_hebreu mot,
                                res_lettres_uniques = uniques,
                                res_gematria_valeur_simple = simple,
                                res_gematria_valeur_miloui = miloui,
                                res_gematria_description = description,
                                res_nombre = nr \<rparr>))))))"

section \<open>Command line\<close>

text \<open>
  \<open>main\<close> on \<open>sys.argv\<close>: the usage message (exit code 1) unless there is exactly one
  argument; an exception anywhere is caught and reported (exit code 1); otherwise the
  report, together with the decoded word if the argument was taken as a numeric
  sequence.  \<open>est_sequence_numerique\<close> is the test of the \<open>if\<close> in \<open>main\<close>.
\<close>

datatype outcome = Usage | Failure error | Report "str option" mot_results

definition est_sequence_numerique :: "unicode_db \<Rightarrow> str \<Rightarrow> bool" where
  "est_sequence_numerique db entree =
     (46 \<in> set entree \<and> list_all (isdigit db) (split 46 entree))"

text \<open>
  The end of the \<open>try\<close> block, common to both branches: the results are displayed,
  with the decoded word if there is one, and an exception of the analysis is caught.
\<close>

definition rapport :: "str option \<Rightarrow> (error + mot_results) option \<Rightarrow> outcome option" where
  "rapport decoded res =
     (case res of
        None \<Rightarrow> None
      | Some (Inl e) \<Rightarrow> Some (Failure e)
      | Some (Inr results) \<Rightarrow> Some (Report decoded results))"

definition main :: "unicode_db \<Rightarrow> (str \<Rightarrow> str) \<Rightarrow> str list \<Rightarrow> outcome option" where
  "main db set_iter argv =
     (if length argv \<noteq> 2 then Some Usage
      else (let entree = strip (argv ! 1)
            in if est_sequence_numerique db entree then
                 (case decoder_sequence_hebreu db entree of
                    Inl e \<Rightarrow> Some (Failure e)
                  | Inr mot_decode \<Rightarrow>
                      rapport (Some mot_decode) (analyser_mot_hebreu db set_iter mot_decode))
               else rapport None (analyser_mot_hebreu db set_iter entree)))"

section \<open>Properties\<close>

lemma alphabet_dom:
  "ALPHABET_HEBREU c \<noteq> None \<longleftrightarrow> 1488 \<le> c \<and> c \<le> 1514"
proof
  assume "ALPHABET_HEBREU c \<noteq> None"
  then show "1488 \<le> c \<and> c \<le> 1514"
    by (auto simp: ALPHABET_HEBREU_def split: if_splits)
next
  assume "1488 \<le> c \<and> c \<le> 1514"
  then have "c = 1488 \<or> c = 1489 \<or> c = 1490 \<or> c = 1491 \<or> c = 1492 \<or> c =
       1493 \<or> c = 1494 \<or> c = 1495 \<or> c = 1496 \<or> c = 1497 \<or> c = 1498
       \<or> c = 1499 \<or> c = 1500 \<or> c = 1501 \<or> c = 1502 \<or> c = 1503 \<or>
       c = 1504 \<or> c = 1505 \<or> c = 1506 \<or> c = 1507 \<or> c = 1508 \<or> c =
       1509 \<or> c = 1510 \<or> c = 1511 \<or> c = 1512 \<or> c = 1513 \<or> c = 1514"
    by arith
  then show "ALPHABET_HEBREU c \<noteq> None"
    by (auto simp: ALPHABET_HEBREU_def)
qed

lemma isspace_not_in_alphabet: "isspace c \<Longrightarrow> ALPHABET_HEBREU c = None"
  using alphabet_dom [of c] by (auto simp: isspace_def)

lemma isspace_valeur: "isspace c \<Longrightarrow> valeur c = 0"
  by (simp add: valeur_def isspace_not_in_alphabet)

lemma sum_dropWhile_zero:
  assumes "\<And>x. P x \<Longrightarrow> f x = (0::int)"
  shows "sum_list (map f (dropWhile P xs)) = sum_list (map f xs)"
  using assms by (induction xs) auto

lemma sum_valeur_strip: "sum_list (map valeur (strip mot)) = sum_list (map valeur mot)"
proof -
  have "sum_list (map valeur (strip mot))
      = sum_list (map valeur (dropWhile isspace (rev (dropWhile isspace mot))))"
    by (simp add: strip_def rev_map [symmetric])
  also have "\<dots> = sum_list (map valeur (rev (dropWhile isspace mot)))"
    by (rule sum_dropWhile_zero) (rule isspace_valeur)
  also have "\<dots> = sum_list (map valeur (dropWhile isspace mot))"
    by (simp add: rev_map [symmetric])
  also have "\<dots> = sum_list (map valeur mot)"
    by (rule sum_dropWhile_zero) (rule isspace_valeur)
  finally show ?thesis .
qed

lemma mot_vers_nombre_loop_sum:
  "mot_vers_nombre_loop w total_v = total_v + sum_list (map valeur w)"
  by (induction w arbitrary: total_v) (auto simp: valeur_def split: option.splits)

text \<open>
  C4: \<open>mot_vers_nombre\<close> returns the sum of the table values of the Hebrew-mapped
  characters of the word; every other character contributes 0 (also a Latin letter,
  which the encoder does give a value).  The gematria of the word U+05E9 U+05DC U+05D5
  U+05DD (shalom) is 21 + 12 + 6 + 13 = 52.
\<close>

theorem mot_vers_nombre_sum:
  "mot_vers_nombre mot = sum_list (map valeur mot)
   \<and> valeur 65 = 0 \<and> valeur 122 = 0
   \<and> mot_vers_nombre [1513, 1500, 1493, 1501] = 21 + 12 + 6 + 13
   \<and> mot_vers_nombre [1513, 1500, 1493, 1501] = 52"
proof -
  have gen: "\<And>w. mot_vers_nombre w = sum_list (map valeur w)"
    by (simp add: mot_vers_nombre_def mot_vers_nombre_loop_sum sum_valeur_strip)
  have "valeur 65 = 0" "valeur 122 = 0"
    by (simp_all add: valeur_def ALPHABET_HEBREU_def)
  moreover have "mot_vers_nombre [1513, 1500, 1493, 1501] = 52"
    unfolding gen by (simp add: valeur_def ALPHABET_HEBREU_def)
  ultimately show ?thesis using gen by simp
qed

lemma filter_dropWhile_disjoint:
  assumes "\<And>x. P x \<Longrightarrow> \<not> Q x"
  shows "filter Q (dropWhile P xs) = filter Q xs"
  using assms by (induction xs) auto

lemma isspace_not_member: "isspace c \<Longrightarrow> \<not> in_alphabet c"
  by (simp add: in_alphabet_def isspace_not_in_alphabet)

lemma filter_in_alphabet_strip: "filter in_alphabet (strip mot) = filter in_alphabet mot"
proof -
  have "filter in_alphabet (strip mot)
      = rev (filter in_alphabet (dropWhile isspace (rev (dropWhile isspace mot))))"
    by (simp add: strip_def rev_filter)
  also have "\<dots> = rev (filter in_alphabet (rev (dropWhile isspace mot)))"
    by (simp add: filter_dropWhile_disjoint [of isspace in_alphabet] isspace_not_member)
  also have "\<dots> = filter in_alphabet (dropWhile isspace mot)"
    by (simp add: rev_filter)
  also have "\<dots> = filter in_alphabet mot"
    by (simp add: filter_dropWhile_disjoint [of isspace in_alphabet] isspace_not_member)
  finally show ?thesis .
qed

text \<open>
  C7: the palindrome check keeps only the Hebrew-mapped characters of the word and
  returns true exactly when that filtered string equals its reverse; the word
  U+05D0 U+05D0 yields true, and so does every word without Hebrew letters.
\<close>

theorem est_palindrome_hebreu_filter:
  "(est_palindrome_hebreu mot \<longleftrightarrow> filter in_alphabet mot = rev (filter in_alphabet mot))
   \<and> est_palindrome_hebreu [1488, 1488]
   \<and> (filter in_alphabet mot = [] \<longrightarrow> est_palindrome_hebreu mot)"
proof -
  have gen: "\<And>w. est_palindrome_hebreu w
      \<longleftrightarrow> filter in_alphabet w = rev (filter in_alphabet w)"
    by (simp add: est_palindrome_hebreu_def filter_in_alphabet_strip Let_def)
  have "est_palindrome_hebreu [1488, 1488]"
    unfolding gen by (simp add: in_alphabet_def ALPHABET_HEBREU_def)
  then show ?thesis using gen by simp
qed

theorem est_palindrome_hebreu_filter_witness:
  "filter in_alphabet [97, 98, 32, 49] = [] \<and> est_palindrome_hebreu [97, 98, 32, 49]"
proof -
  have h: "filter in_alphabet [97, 98, 32, 49] = []"
    by (simp add: in_alphabet_def ALPHABET_HEBREU_def)
  with est_palindrome_hebreu_filter [of "[97, 98, 32, 49]"] show ?thesis by simp
qed

text \<open>
  C8: whatever the iteration order of the set, \<open>lettres_uniques_hebreu\<close> returns a
  string that contains exactly the distinct Hebrew-mapped characters of the word, each
  once, in ascending order of their values.
\<close>

theorem lettres_uniques_hebreu_sorted:
  assumes "distinct (set_iter (filter in_alphabet mot))"
    and "set (set_iter (filter in_alphabet mot)) = set (filter in_alphabet mot)"
  shows "\<exists>r. lettres_uniques_hebreu set_iter mot = Inr r
       \<and> set r = {c \<in> set mot. in_alphabet c}
       \<and> distinct r
       \<and> sorted (map valeur r)"
proof -
  let ?elems = "set_iter (filter in_alphabet mot)"
  have "list_all in_alphabet ?elems"
    using assms(2) by (auto simp: list_all_iff)
  then have "lettres_uniques_hebreu set_iter mot = Inr (sort_key valeur ?elems)"
    by (simp add: lettres_uniques_hebreu_def)
  moreover have "set (sort_key valeur ?elems) = {c \<in> set mot. in_alphabet c}"
    using assms(2) by auto
  moreover have "distinct (sort_key valeur ?elems)"
    using assms(1) by simp
  moreover have "sorted (map valeur (sort_key valeur ?elems))"
    by (rule sorted_sort_key)
  ultimately show ?thesis by blast
qed

theorem lettres_uniques_hebreu_sorted_witness:
  "distinct (remdups (filter in_alphabet [1513, 1500, 97, 1493, 1500, 1501]))
   \<and> set (remdups (filter in_alphabet [1513, 1500, 97, 1493, 1500, 1501]))
       = set (filter in_alphabet [1513, 1500, 97, 1493, 1500, 1501])
   \<and> lettres_uniques_hebreu remdups [1513, 1500, 97, 1493, 1500, 1501]
       = Inr [1493, 1500, 1501, 1513]"
proof -
  have v: "valeur 1493 = 6" "valeur 1500 = 12" "valeur 1501 = 13" "valeur 1513 = 21"
    by (simp_all add: valeur_def ALPHABET_HEBREU_def)
  have m: "in_alphabet 1513" "in_alphabet 1500" "\<not> in_alphabet 97" "in_alphabet 1493"
    "in_alphabet 1501"
    by (simp_all add: in_alphabet_def ALPHABET_HEBREU_def)
  have "lettres_uniques_hebreu remdups [1513, 1500, 97, 1493, 1500, 1501]
      = Inr [1493, 1500, 1501, 1513]"
    by (simp add: lettres_uniques_hebreu_def m v)
  then show ?thesis
    using lettres_uniques_hebreu_sorted [of remdups "[1513, 1500, 97, 1493, 1500, 1501]"]
    by simp
qed

lemma str_nat_ne: "str_nat n \<noteq> []"
  by (subst str_nat.simps) simp

lemma str_nat_digits: "c \<in> set (str_nat n) \<Longrightarrow> 48 \<le> c \<and> c \<le> 57"
proof (induction n arbitrary: c rule: str_nat.induct)
  case (1 n)
  show ?case
  proof (cases "n < 10")
    case True
    with "1.prems" show ?thesis by (subst (asm) str_nat.simps) simp
  next
    case False
    with "1.prems" have "c \<in> set (str_nat (n div 10)) \<or> c = 48 + n mod 10"
      by (subst (asm) str_nat.simps) auto
    then show ?thesis
    proof
      assume "c \<in> set (str_nat (n div 10))"
      with False "1.IH" show ?thesis by blast
    next
      assume "c = 48 + n mod 10"
      moreover have "n mod 10 < 10" by simp
      ultimately show ?thesis by linarith
    qed
  qed
qed

lemma isdigit_cp_ascii: "48 \<le> c \<and> c \<le> 57 \<Longrightarrow> isdigit_cp db c"
  by (simp add: isdigit_cp_def)

lemma isdigit_str_nat: "isdigit db (str_nat n)"
  using str_nat_digits [of _ n]
  by (simp add: isdigit_def str_nat_ne list_all_iff isdigit_cp_ascii)

lemma int_digits_append:
  "int_digits db (xs @ ys) acc =
     (case int_digits db xs acc of Inl e \<Rightarrow> Inl e | Inr a \<Rightarrow> int_digits db ys a)"
  by (induction xs arbitrary: acc) (auto split: option.splits)

lemma decimal_ascii: "d < 10 \<Longrightarrow> decimal db (48 + d) = Some d"
  by (simp add: decimal_def)

lemma int_digits_str_nat: "int_digits db (str_nat n) 0 = Inr (int n)"
proof (induction n rule: str_nat.induct)
  case (1 n)
  show ?case
  proof (cases "n < 10")
    case True
    then show ?thesis
      by (subst str_nat.simps) (simp add: decimal_ascii)
  next
    case False
    have d: "decimal db (48 + n mod 10) = Some (n mod 10)"
      by (rule decimal_ascii) simp
    have "int_digits db (str_nat n) 0
        = int_digits db (str_nat (n div 10) @ [48 + n mod 10]) 0"
      using False by (subst str_nat.simps) simp
    also have "\<dots> = Inr (10 * int (n div 10) + int (n mod 10))"
      using "1.IH" [OF False] by (simp add: int_digits_append d)
    also have "10 * int (n div 10) + int (n mod 10) = int n"
      by (simp add: zdiv_int zmod_int)
    finally show ?thesis .
  qed
qed

lemma int_str_str_nat:
  "length (str_nat n) \<le> int_max_str_digits \<Longrightarrow> int_str db (str_nat n) = Inr (int n)"
  by (simp add: int_str_def str_nat_ne int_digits_str_nat)

lemma str_nat_small:
  assumes "n < 100"
  shows "length (str_nat n) \<le> 2"
proof (cases "n < 10")
  case True
  then show ?thesis by (subst str_nat.simps) simp
next
  case False
  have "n div 10 < 10" using assms by simp
  then have "str_nat (n div 10) = [48 + n div 10]" by (subst str_nat.simps) simp
  with False show ?thesis by (subst str_nat.simps) simp
qed

lemma split_no_sep: "sep \<notin> set t \<Longrightarrow> split sep t = [t]"
  by (induction t) auto

lemma split_ne: "split sep s \<noteq> []"
  by (induction s) (auto split: list.splits)

lemma split_append_sep:
  "sep \<notin> set t \<Longrightarrow> split sep (t @ sep # s) = t # split sep s"
  by (induction t) (auto split: list.splits)

lemma split_join:
  assumes "ts \<noteq> []" and "\<And>t. t \<in> set ts \<Longrightarrow> sep \<notin> set t"
  shows "split sep (join [sep] ts) = ts"
  using assms
proof (induction ts)
  case Nil
  then show ?case by simp
next
  case (Cons t ts)
  show ?case
  proof (cases ts)
    case Nil
    with Cons.prems show ?thesis by (simp add: split_no_sep)
  next
    case (Cons u us)
    with Cons.IH Cons.prems have "split sep (join [sep] ts) = ts" by simp
    moreover have "sep \<notin> set t" using Cons.prems by simp
    ultimately show ?thesis using Cons by (simp add: split_append_sep)
  qed
qed

lemma dropWhile_none: "(\<And>x. x \<in> set xs \<Longrightarrow> \<not> P x) \<Longrightarrow> dropWhile P xs = xs"
  by (cases xs) auto

lemma strip_no_space:
  assumes "\<And>c. c \<in> set w \<Longrightarrow> \<not> isspace c"
  shows "strip w = w"
proof -
  have "dropWhile isspace w = w"
    using assms by (rule dropWhile_none)
  moreover have "dropWhile isspace (rev w) = rev w"
    using assms by (intro dropWhile_none) simp
  ultimately show ?thesis by (simp add: strip_def)
qed

lemma strip_hebrew: "list_all in_alphabet w \<Longrightarrow> strip w = w"
  by (rule strip_no_space) (auto simp: list_all_iff dest: isspace_not_member)

lemma letter_value:
  assumes "in_alphabet c"
  shows "\<exists>v. ALPHABET_HEBREU c = Some v \<and> 1 \<le> v \<and> v \<le> 22
           \<and> ALPHABET_INVERSE v = Some (base_letter c)"
proof -
  from assms have "1488 \<le> c \<and> c \<le> 1514"
    using alphabet_dom [of c] by (simp add: in_alphabet_def)
  then have "c = 1488 \<or> c = 1489 \<or> c = 1490 \<or> c = 1491 \<or> c = 1492 \<or> c = 1493 \<or> c = 1494
       \<or> c = 1495 \<or> c = 1496 \<or> c = 1497 \<or> c = 1498 \<or> c = 1499 \<or> c = 1500 \<or> c = 1501
       \<or> c = 1502 \<or> c = 1503 \<or> c = 1504 \<or> c = 1505 \<or> c = 1506 \<or> c = 1507 \<or> c = 1508
       \<or> c = 1509 \<or> c = 1510 \<or> c = 1511 \<or> c = 1512 \<or> c = 1513 \<or> c = 1514"
    by arith
  then show ?thesis
    by (auto simp: ALPHABET_HEBREU_def ALPHABET_INVERSE_def base_letter_def)
qed

lemma str_int_nonneg: "0 \<le> v \<Longrightarrow> str_int v = str_nat (nat v)"
  by (simp add: str_int_def)

lemma encoder_loop_hebrew:
  "list_all in_alphabet w \<Longrightarrow>
   encoder_loop db w resultat = Inr (resultat @ map (\<lambda>c. str_int (valeur c)) w)"
proof (induction w arbitrary: resultat)
  case Nil
  then show ?case by simp
next
  case (Cons c w)
  then obtain v where "ALPHABET_HEBREU c = Some v"
    by (auto simp: in_alphabet_def)
  with Cons show ?case by (simp add: valeur_def)
qed

lemma decoder_loop_hebrew:
  "list_all in_alphabet w \<Longrightarrow>
   decoder_loop db (map (\<lambda>c. str_int (valeur c)) w) mot_decode
     = Inr (mot_decode @ map base_letter w)"
proof (induction w arbitrary: mot_decode)
  case Nil
  then show ?case by simp
next
  case (Cons c w)
  then have "in_alphabet c" by simp
  from letter_value [OF this] obtain v where v: "ALPHABET_HEBREU c = Some v"
    "1 \<le> v" "v \<le> 22" "ALPHABET_INVERSE v = Some (base_letter c)"
    by blast
  have tok: "str_int (valeur c) = str_nat (nat v)"
    using v by (simp add: valeur_def str_int_nonneg)
  have "length (str_nat (nat v)) \<le> 2"
    using v by (intro str_nat_small) simp
  then have "int_str db (str_nat (nat v)) = Inr v"
    using v by (simp add: int_str_str_nat int_max_str_digits_def)
  with Cons v tok show ?case
    by (simp add: isdigit_str_nat)
qed

lemma token_no_dot: "in_alphabet c \<Longrightarrow> 46 \<notin> set (str_int (valeur c))"
proof
  assume c: "in_alphabet c" and "46 \<in> set (str_int (valeur c))"
  from letter_value [OF c] obtain v where "ALPHABET_HEBREU c = Some v" "1 \<le> v" by blast
  then have "str_int (valeur c) = str_nat (nat v)"
    by (simp add: valeur_def str_int_nonneg)
  with \<open>46 \<in> set (str_int (valeur c))\<close> str_nat_digits [of 46 "nat v"]
  show False by simp
qed

lemma decode_encode_hebrew:
  assumes "list_all in_alphabet w"
  shows "decode_encode db w = Inr (map base_letter w)"
proof (cases w)
  case Nil
  then show ?thesis
    by (simp add: decode_encode_def encoder_mot_hebreu_def decoder_sequence_hebreu_def
        strip_def isdigit_def)
next
  case (Cons c cs)
  let ?ts = "map (\<lambda>c. str_int (valeur c)) w"
  have enc: "encoder_mot_hebreu db w = Inr (join [46] ?ts)"
    using assms by (simp add: encoder_mot_hebreu_def strip_hebrew encoder_loop_hebrew)
  have "?ts \<noteq> []" using Cons by simp
  moreover have "\<And>t. t \<in> set ?ts \<Longrightarrow> 46 \<notin> set t"
    using assms by (auto simp: list_all_iff dest: token_no_dot)
  ultimately have "split 46 (join [46] ?ts) = ?ts"
    by (rule split_join)
  then show ?thesis
    using assms enc
    by (simp add: decode_encode_def decoder_sequence_hebreu_def decoder_loop_hebrew)
qed

lemma base_letter_id: "\<not> final_form c \<Longrightarrow> base_letter c = c"
  by (simp add: base_letter_def final_form_def)

text \<open>
  C3 fails as stated: the word that consists of the final mem U+05DD alone contains only
  mapped Hebrew letters, is encoded as 13 and decoded as the non-final mem U+05DE.
\<close>

theorem decode_encode_final_mem_counterexample:
  "list_all in_alphabet [1501] \<and> decode_encode ucd_latin1 [1501] = Inr [1502]
   \<and> decode_encode ucd_latin1 [1501] \<noteq> Inr [1501]"
  by (simp add: decode_encode_def encoder_mot_hebreu_def decoder_sequence_hebreu_def
      strip_def isspace_def in_alphabet_def ALPHABET_HEBREU_def ALPHABET_INVERSE_def
      str_int_def str_nat.simps isdigit_def isdigit_cp_def int_str_def int_max_str_digits_def decimal_def)

text \<open>
  C3, amended: for every word \<open>w\<close> containing only mapped Hebrew letters,
  decode(encode(w)) is \<open>w\<close> with each final form replaced by its non-final letter; it
  is \<open>w\<close> itself when \<open>w\<close> contains no final form.
\<close>

theorem decode_encode_base_letters:
  assumes "list_all in_alphabet w"
  shows "decode_encode db w = Inr (map base_letter w)
       \<and> (list_all (\<lambda>c. \<not> final_form c) w \<longrightarrow> decode_encode db w = Inr w)"
proof -
  have "decode_encode db w = Inr (map base_letter w)"
    using assms by (rule decode_encode_hebrew)
  moreover have "list_all (\<lambda>c. \<not> final_form c) w \<Longrightarrow> map base_letter w = w"
    by (induction w) (simp_all add: base_letter_id)
  ultimately show ?thesis by simp
qed

theorem decode_encode_base_letters_witness:
  "list_all in_alphabet [1513, 1500, 1493, 1501]
   \<and> decode_encode ucd_latin1 [1513, 1500, 1493, 1501] = Inr [1513, 1500, 1493, 1502]
   \<and> list_all in_alphabet [1488, 1489] \<and> list_all (\<lambda>c. \<not> final_form c) [1488, 1489]
   \<and> decode_encode ucd_latin1 [1488, 1489] = Inr [1488, 1489]"
proof -
  have a: "list_all in_alphabet [1513, 1500, 1493, 1501]"
    by (simp add: in_alphabet_def ALPHABET_HEBREU_def)
  have b: "list_all in_alphabet [1488, 1489]"
    by (simp add: in_alphabet_def ALPHABET_HEBREU_def)
  have c: "list_all (\<lambda>c. \<not> final_form c) [1488, 1489]"
    by (simp add: final_form_def)
  show ?thesis
    using a b c decode_encode_base_letters [OF a, of ucd_latin1]
      decode_encode_base_letters [OF b, of ucd_latin1]
    by (simp add: base_letter_def)
qed

lemma int_digits_decimal:
  "list_all (\<lambda>c. decimal db c \<noteq> None) t \<Longrightarrow> \<exists>v. int_digits db t acc = Inr v"
  by (induction t arbitrary: acc) auto

lemma inverse_defined: "1 \<le> v \<Longrightarrow> v \<le> 22 \<Longrightarrow> \<exists>l. ALPHABET_INVERSE v = Some l"
proof -
  assume "1 \<le> v" "v \<le> 22"
  then have "v = 1 \<or> v = 2 \<or> v = 3 \<or> v = 4 \<or> v = 5 \<or> v = 6 \<or> v = 7 \<or> v = 8 \<or> v = 9
      \<or> v = 10 \<or> v = 11 \<or> v = 12 \<or> v = 13 \<or> v = 14 \<or> v = 15 \<or> v = 16 \<or> v = 17
      \<or> v = 18 \<or> v = 19 \<or> v = 20 \<or> v = 21 \<or> v = 22"
    by arith
  then show ?thesis by (auto simp: ALPHABET_INVERSE_def)
qed

text \<open>
  When every token that passes \<open>isdigit\<close> has at most 4300 characters, all of them
  with a decimal value, the decoder raises nothing and decodes token by token, in
  order.
\<close>

lemma decoder_loop_decimal:
  assumes "\<And>t. t \<in> set ts \<Longrightarrow> isdigit db t
             \<Longrightarrow> length t \<le> int_max_str_digits \<and> list_all (\<lambda>c. decimal db c \<noteq> None) t"
  shows "decoder_loop db ts mot_decode = Inr (mot_decode @ concat (map (token_letters db) ts))"
  using assms
proof (induction ts arbitrary: mot_decode)
  case Nil
  then show ?case by simp
next
  case (Cons t ts)
  have IH: "\<And>m. decoder_loop db ts m = Inr (m @ concat (map (token_letters db) ts))"
    using Cons by simp
  show ?case
  proof (cases "isdigit db t")
    case False
    then have "token_letters db t = []" by (simp add: token_letters_def)
    with False show ?thesis by (simp add: IH)
  next
    case True
    then have len: "length t \<le> int_max_str_digits"
      and "list_all (\<lambda>c. decimal db c \<noteq> None) t" using Cons.prems by simp_all
    from int_digits_decimal [OF this(2)] obtain v where v: "int_str db t = Inr v"
      using True len by (auto simp: int_str_def isdigit_def)
    show ?thesis
    proof (cases "1 \<le> v \<and> v \<le> 22")
      case True
      then obtain l where l: "ALPHABET_INVERSE v = Some l" using inverse_defined by blast
      with True \<open>isdigit db t\<close> v have "token_letters db t = [l]"
        by (simp add: token_letters_def)
      with True \<open>isdigit db t\<close> v l show ?thesis by (simp add: IH)
    next
      case False
      show ?thesis
      proof (cases "1 \<le> v \<and> v \<le> 26")
        case True
        with False \<open>isdigit db t\<close> v have "token_letters db t = [nat (v + 65 - 1)]"
          by (simp add: token_letters_def)
        with True False \<open>isdigit db t\<close> v show ?thesis by (simp add: IH chr_def)
      next
        case False
        with \<open>\<not> (1 \<le> v \<and> v \<le> 22)\<close> \<open>isdigit db t\<close> v have "token_letters db t = []"
          by (auto simp: token_letters_def)
        with False \<open>\<not> (1 \<le> v \<and> v \<le> 22)\<close> \<open>isdigit db t\<close> v show ?thesis
          by (auto simp: IH)
      qed
    qed
  qed
qed

lemma decoder_sequence_hebreu_decimal:
  assumes "\<And>t. t \<in> set (split 46 s) \<Longrightarrow> isdigit db t
             \<Longrightarrow> length t \<le> int_max_str_digits \<and> list_all (\<lambda>c. decimal db c \<noteq> None) t"
  shows "decoder_sequence_hebreu db s = Inr (concat (map (token_letters db) (split 46 s)))"
  using decoder_loop_decimal [OF assms, of "split 46 s" "[]"]
  by (simp add: decoder_sequence_hebreu_def)

text \<open>
  When every alphabetic character outside the table has an uppercase mapping of
  length one, the encoder raises nothing and emits the values character by character.
\<close>

lemma encoder_loop_single_upper:
  assumes "\<And>c. c \<in> set w \<Longrightarrow> ALPHABET_HEBREU c = None \<Longrightarrow> isalpha db c
             \<Longrightarrow> length (upper db c) = 1"
  shows "encoder_loop db w resultat
       = Inr (resultat @ map str_int (concat (map (letter_values db) w)))"
  using assms
proof (induction w arbitrary: resultat)
  case Nil
  then show ?case by simp
next
  case (Cons c w)
  have IH: "\<And>r. encoder_loop db w r = Inr (r @ map str_int (concat (map (letter_values db) w)))"
    using Cons by simp
  show ?case
  proof (cases "ALPHABET_HEBREU c")
    case (Some v)
    then have "letter_values db c = [v]" by (simp add: letter_values_def)
    with Some show ?thesis by (simp add: IH)
  next
    case None
    show ?thesis
    proof (cases "isalpha db c")
      case False
      with None have "letter_values db c = []" by (simp add: letter_values_def)
      with None False show ?thesis by (simp add: IH)
    next
      case True
      with None Cons.prems have "length (upper db c) = 1" by simp
      then obtain u where u: "upper db c = [u]"
        by (cases "upper db c") auto
      with None True have "letter_values db c = [int u - 65 + 1]"
        by (simp add: letter_values_def)
      with None True u show ?thesis by (simp add: IH)
    qed
  qed
qed

lemma encoder_mot_hebreu_single_upper:
  assumes "\<And>c. c \<in> set (strip mot) \<Longrightarrow> ALPHABET_HEBREU c = None \<Longrightarrow> isalpha db c
             \<Longrightarrow> length (upper db c) = 1"
  shows "encoder_mot_hebreu db mot
       = Inr (join [46] (map str_int (concat (map (letter_values db) (strip mot)))))"
  using encoder_loop_single_upper [OF assms, of "strip mot" "[]"]
  by (simp add: encoder_mot_hebreu_def)

text \<open>
  C1 at the tokens SUPERSCRIPT TWO (U+00B2) and 1.SUPERSCRIPT TWO: the token U+00B2
  passes \<open>isdigit\<close> but has no decimal value, so \<open>int\<close> raises \<open>ValueError\<close> and the
  decoder returns no word, where the claim has the token skipped.
\<close>

theorem decoder_sequence_hebreu_superscript_two:
  "isdigit ucd_latin1 [178]
   \<and> decoder_sequence_hebreu ucd_latin1 [178] = Inl ValueError
   \<and> decoder_sequence_hebreu ucd_latin1 [49, 46, 178] = Inl ValueError"
  by (simp add: decoder_sequence_hebreu_def isdigit_def isdigit_cp_def int_str_def
      int_max_str_digits_def decimal_def ucd_latin1_def ALPHABET_INVERSE_def)

text \<open>
  C2 at the words sharp s (U+00DF) and strasse written with sharp s: the letter is
  alphabetic and not in the table, its uppercase is the two-character string SS, so
  \<open>ord\<close> raises \<open>TypeError\<close> and the encoder returns no sequence, where the claim has a
  value emitted for every alphabetic character.
\<close>

theorem encoder_mot_hebreu_sharp_s:
  "isalpha ucd_latin1 223 \<and> ALPHABET_HEBREU 223 = None \<and> upper ucd_latin1 223 = [83, 83]
   \<and> encoder_mot_hebreu ucd_latin1 [223] = Inl TypeError
   \<and> encoder_mot_hebreu ucd_latin1 [115, 116, 114, 97, 223, 101] = Inl TypeError"
  by (simp add: encoder_mot_hebreu_def strip_def isspace_def ALPHABET_HEBREU_def
      isalpha_def upper_def ucd_latin1_def str_int_def str_nat.simps)

lemma div_step:
  assumes "1 \<le> n" "2 \<le> d" "n mod d = 0"
  shows "1 \<le> n div d \<and> n div d < (n::int)"
proof -
  have "0 < n div d"
    using assms by (simp add: pos_imp_zdiv_pos_iff zdvd_imp_le dvd_eq_mod_eq_0)
  moreover have "n div d < n"
    using assms by (intro int_div_less_self) simp_all
  ultimately show ?thesis by simp
qed

lemma factorize_inner_spec:
  assumes "1 \<le> n" "2 \<le> d"
  shows "\<exists>k n'. factorize_inner n d fs = Some (n', fs @ replicate k d)
           \<and> n = n' * d ^ k \<and> 1 \<le> n' \<and> \<not> d dvd n'"
  using assms
proof (induction "nat n" arbitrary: n fs rule: less_induct)
  case less
  show ?case
  proof (cases "n mod d = 0")
    case False
    then have "factorize_inner n d fs = Some (n, fs @ replicate 0 d)"
      by (subst factorize_inner.simps) simp
    moreover have "\<not> d dvd n" using False by (simp add: dvd_eq_mod_eq_0)
    ultimately show ?thesis using less.prems by (intro exI[of _ 0] exI[of _ n]) simp
  next
    case True
    from div_step [OF less.prems True] have s: "1 \<le> n div d" "n div d < n" by simp_all
    then have "nat (n div d) < nat n" by simp
    from less.hyps [OF this s(1) less.prems(2), of "fs @ [d]"]
    obtain k n' where r: "factorize_inner (n div d) d (fs @ [d]) = Some (n', (fs @ [d]) @ replicate k d)"
      "n div d = n' * d ^ k" "1 \<le> n'" "\<not> d dvd n'" by blast
    have "factorize_inner n d fs = Some (n', fs @ replicate (Suc k) d)"
      using True r(1) by (subst factorize_inner.simps) (simp add: replicate_app_Cons_same)
    moreover have "n = n' * d ^ Suc k"
    proof -
      have "n = d * (n div d)" using True by auto
      with r(2) show ?thesis by simp
    qed
    ultimately show ?thesis using r(3,4) by blast
  qed
qed

lemma prod_list_replicate_int: "prod_list (replicate k (d::int)) = d ^ k"
  by (induction k) simp_all

lemma sorted_replicate_int: "sorted (replicate k (d::int))"
  by (induction k) simp_all

lemma factorize_outer_spec:
  assumes "1 \<le> n" "2 \<le> d" "\<forall>k. 2 \<le> k \<and> k < d \<longrightarrow> \<not> k dvd n"
  shows "\<exists>n' gs d'. factorize_outer n d fs = Some (n', fs @ gs)
           \<and> prod_list gs * n' = n \<and> sorted gs
           \<and> (\<forall>p \<in> set gs. is_prime_number p \<and> d \<le> p \<and> p < d')
           \<and> d \<le> d' \<and> 1 \<le> n' \<and> n' < d' * d'
           \<and> (\<forall>k. 2 \<le> k \<and> k < d' \<longrightarrow> \<not> k dvd n')"
  using assms
proof (induction "nat (n + 1 - d)" arbitrary: n d fs rule: less_induct)
  case less
  show ?case
  proof (cases "d * d \<le> n")
    case False
    then have "factorize_outer n d fs = Some (n, fs @ [])"
      by (subst factorize_outer.simps) simp
    then show ?thesis
      using False less.prems
      by (intro exI[of _ n] exI[of _ "[]"] exI[of _ d]) simp
  next
    case True
    from factorize_inner_spec [OF less.prems(1,2), of fs]
    obtain k n1 where inner: "factorize_inner n d fs = Some (n1, fs @ replicate k d)"
      "n = n1 * d ^ k" "1 \<le> n1" "\<not> d dvd n1" by blast
    have dk: "1 \<le> d ^ k" using less.prems(2) by simp
    have "n1 * 1 \<le> n1 * d ^ k"
      using inner(3) dk by (intro mult_left_mono) simp_all
    then have n1_le: "n1 \<le> n" using inner(2) by simp
    have "d * 1 \<le> d * d" using less.prems(2) by (intro mult_left_mono) simp_all
    then have d_le: "d \<le> n" using True by simp
    have meas: "nat (n1 + 1 - (d + 1)) < nat (n + 1 - d)"
      using n1_le d_le by simp
    have nodiv: "\<forall>j. 2 \<le> j \<and> j < d + 1 \<longrightarrow> \<not> j dvd n1"
    proof (intro allI impI)
      fix j assume j: "2 \<le> j \<and> j < d + 1"
      show "\<not> j dvd n1"
      proof (cases "j = d")
        case True
        then show ?thesis using inner(4) by simp
      next
        case False
        with j have "2 \<le> j \<and> j < d" by simp
        then have "\<not> j dvd n" using less.prems(3) by blast
        then show ?thesis using inner(2) by auto
      qed
    qed
    have d1: "2 \<le> d + 1" using less.prems(2) by simp
    from less.hyps [OF meas inner(3) d1 nodiv, of "fs @ replicate k d"]
    obtain n' gs' d' where rec:
      "factorize_outer n1 (d + 1) (fs @ replicate k d) = Some (n', (fs @ replicate k d) @ gs')"
      "prod_list gs' * n' = n1" "sorted gs'"
      "\<forall>p \<in> set gs'. is_prime_number p \<and> d + 1 \<le> p \<and> p < d'"
      "d + 1 \<le> d'" "1 \<le> n'" "n' < d' * d'"
      "\<forall>k. 2 \<le> k \<and> k < d' \<longrightarrow> \<not> k dvd n'"
      by blast
    let ?gs = "replicate k d @ gs'"
    have res: "factorize_outer n d fs = Some (n', fs @ ?gs)"
      using True inner(1) rec(1) by (subst factorize_outer.simps) simp
    have prod: "prod_list ?gs * n' = n"
      using rec(2) inner(2) by (simp add: prod_list_replicate_int mult.assoc mult.commute)
    have srt: "sorted ?gs"
      using rec(3,4) by (auto simp: sorted_append sorted_replicate_int)
    have dprime: "0 < k \<Longrightarrow> is_prime_number d"
    proof -
      assume "0 < k"
      then have "d dvd d ^ k" by (cases k) simp_all
      then have "d dvd n" using inner(2) by simp
      have "\<forall>j \<in> {2..<d}. \<not> j dvd d"
      proof
        fix j assume "j \<in> {2..<d}"
        then have "\<not> j dvd n" using less.prems(3) by simp
        then show "\<not> j dvd d" using \<open>d dvd n\<close> dvd_trans by blast
      qed
      then show ?thesis using less.prems(2) by (simp add: is_prime_number_def)
    qed
    have prm: "\<forall>p \<in> set ?gs. is_prime_number p \<and> d \<le> p \<and> p < d'"
    proof
      fix p assume "p \<in> set ?gs"
      then consider "p = d" "0 < k" | "p \<in> set gs'" by (cases k) auto
      then show "is_prime_number p \<and> d \<le> p \<and> p < d'"
      proof cases
        case 1
        then show ?thesis using dprime rec(5) by simp
      next
        case 2
        then show ?thesis using rec(4) by auto
      qed
    qed
    have "d \<le> d'" using rec(5) by simp
    with res prod srt prm rec(6,7,8) show ?thesis by blast
  qed
qed

lemma no_small_divisor_prime:
  assumes "2 \<le> n" "2 \<le> d" "n < d * d" "\<forall>k. 2 \<le> k \<and> k < d \<longrightarrow> \<not> k dvd n"
  shows "is_prime_number n \<and> d \<le> n"
proof -
  have small: "d \<le> k" if "2 \<le> k" "k dvd n" for k
  proof (rule ccontr)
    assume "\<not> d \<le> k"
    with that(1) have "2 \<le> k \<and> k < d" by simp
    with assms(4) that(2) show False by blast
  qed
  have dn: "d \<le> n"
    using small [of n] assms(1) by simp
  have "\<forall>j \<in> {2..<n}. \<not> j dvd n"
  proof
    fix j assume j: "j \<in> {2..<n}"
    show "\<not> j dvd n"
    proof
      assume jn: "j dvd n"
      then obtain m where m: "n = j * m" by (auto simp: dvd_def)
      have "0 < j * m" using m assms(1) by simp
      moreover have "0 < j" using j by simp
      ultimately have "0 < m" by (rule zero_less_mult_pos)
      have "m \<noteq> 1" using m j by auto
      with \<open>0 < m\<close> have m2: "2 \<le> m" by simp
      have mn: "m dvd n" using m by simp
      have dj: "d \<le> j" using small [of j] j jn by simp
      have dm: "d \<le> m" using small [OF m2 mn] .
      have "0 \<le> d" using assms(2) by simp
      with dj dm have "d * d \<le> j * m" by (intro mult_mono) simp_all
      with m assms(3) show False by simp
    qed
  qed
  with assms(1) dn show ?thesis by (simp add: is_prime_number_def)
qed

lemma factorize_ge_2:
  assumes "2 \<le> n"
  shows "\<exists>fs. factorize n = Some fs \<and> sorted fs \<and> (\<forall>p \<in> set fs. is_prime_number p)
           \<and> prod_list fs = n"
proof -
  have n1: "1 \<le> n" using assms by simp
  have d2: "(2::int) \<le> 2" by simp
  have nd: "\<forall>k. 2 \<le> k \<and> k < (2::int) \<longrightarrow> \<not> k dvd n" by auto
  from factorize_outer_spec [OF n1 d2 nd, of "[]"]
  obtain n' gs d' where r:
    "factorize_outer n 2 [] = Some (n', [] @ gs)" "prod_list gs * n' = n" "sorted gs"
    "\<forall>p \<in> set gs. is_prime_number p \<and> 2 \<le> p \<and> p < d'"
    "2 \<le> d'" "1 \<le> n'" "n' < d' * d'" "\<forall>k. 2 \<le> k \<and> k < d' \<longrightarrow> \<not> k dvd n'"
    by blast
  show ?thesis
  proof (cases "1 < n'")
    case False
    with r(6) have "n' = 1" by simp
    with r(1) assms have "factorize n = Some gs" by (simp add: factorize_def)
    moreover have "prod_list gs = n" using r(2) \<open>n' = 1\<close> by simp
    moreover have "\<forall>p \<in> set gs. is_prime_number p" using r(4) by simp
    ultimately show ?thesis using r(3) by blast
  next
    case True
    then have "2 \<le> n'" by simp
    from no_small_divisor_prime [OF this r(5,7,8)] have p: "is_prime_number n'" "d' \<le> n'"
      by simp_all
    have "factorize n = Some (gs @ [n'])"
      using r(1) True assms by (simp add: factorize_def)
    moreover have "sorted (gs @ [n'])"
    proof -
      have "\<forall>x \<in> set gs. x \<le> n'" using r(4) p(2) by fastforce
      with r(3) show ?thesis by (simp add: sorted_append)
    qed
    moreover have "\<forall>q \<in> set (gs @ [n']). is_prime_number q"
      using r(4) p(1) by simp
    moreover have "prod_list (gs @ [n']) = n"
      using r(2) by simp
    ultimately show ?thesis by blast
  qed
qed

text \<open>
  C5: for every integer \<open>n < 2\<close>, \<open>factorize\<close> returns the list \<open>[n]\<close>; for every
  \<open>n \<ge> 2\<close> it returns (both loops stop) a nondecreasing list of prime numbers whose
  product is \<open>n\<close>.  In particular \<open>factorize(52) = [2, 2, 13]\<close> and
  \<open>factorize(0) = [0]\<close>.
\<close>

theorem factorize_prime_factors:
  "(n < 2 \<longrightarrow> factorize n = Some [n])
   \<and> (2 \<le> n \<longrightarrow> (\<exists>fs. factorize n = Some fs \<and> sorted fs
            \<and> (\<forall>p \<in> set fs. is_prime_number p) \<and> prod_list fs = n))
   \<and> factorize 52 = Some [2, 2, 13]
   \<and> factorize 0 = Some [0]"
proof -
  have a: "factorize 52 = Some [2, 2, 13]" by code_simp
  have b: "factorize 0 = Some [0]" by (simp add: factorize_def)
  have c: "n < 2 \<longrightarrow> factorize n = Some [n]" by (simp add: factorize_def)
  have d: "2 \<le> n \<longrightarrow> (\<exists>fs. factorize n = Some fs \<and> sorted fs
            \<and> (\<forall>p \<in> set fs. is_prime_number p) \<and> prod_list fs = n)"
    using factorize_ge_2 [of n] by (rule impI)
  from a b c d show ?thesis by (intro conjI)
qed

theorem factorize_prime_factors_witness:
  "(- 3 :: int) < 2 \<and> factorize (- 3) = Some [- 3]
   \<and> (2 :: int) \<le> 52 \<and> factorize 52 = Some [2, 2, 13]
   \<and> prod_list [2, 2, 13] = (52 :: int)"
  using factorize_prime_factors [of "- 3"] factorize_prime_factors [of 52]
  by simp

text \<open>
  C6 at \<open>n = 2 ^ 1024\<close>: the conversion of \<open>n\<close> to a double in \<open>math.sqrt\<close> raises
  \<open>OverflowError\<close>, so \<open>is_prime\<close> returns neither true nor false; on 52, 0 and 53
  it returns false, false and true.
\<close>

theorem is_prime_overflow:
  "is_prime (2 ^ 1024) = Inl OverflowError
   \<and> is_prime 52 = Inr False \<and> is_prime 0 = Inr False \<and> is_prime 53 = Inr True"
  by code_simp

lemma isqrt_bounds:
  "0 \<le> n \<Longrightarrow> 0 \<le> isqrt n \<and> isqrt n * isqrt n \<le> n \<and> n < (isqrt n + 1) * (isqrt n + 1)"
proof (induction n rule: isqrt.induct)
  case (1 n)
  show ?case
  proof (cases "n < 4")
    case True
    with "1.prems" show ?thesis
      by (subst (1 2 3 4 5) isqrt.simps) auto
  next
    case False
    define m where "m = n div 4"
    define r where "r = 2 * isqrt m"
    have m0: "0 \<le> m" using "1.prems" by (simp add: m_def)
    have IH: "0 \<le> isqrt m \<and> isqrt m * isqrt m \<le> m \<and> m < (isqrt m + 1) * (isqrt m + 1)"
      using "1.IH" False m0 by (simp add: m_def)
    have n4: "4 * m \<le> n" "n \<le> 4 * m + 3" by (simp_all add: m_def)
    have r0: "0 \<le> r" using IH by (simp add: r_def)
    have rr: "r * r = 4 * (isqrt m * isqrt m)" by (simp add: r_def)
    have lo: "r * r \<le> n" using rr IH n4 by simp
    have "(r + 2) * (r + 2) = 4 * ((isqrt m + 1) * (isqrt m + 1))"
      by (simp add: r_def algebra_simps)
    moreover have "m + 1 \<le> (isqrt m + 1) * (isqrt m + 1)" using IH by simp
    ultimately have hi: "n < (r + 2) * (r + 2)" using n4 by simp
    have eq: "isqrt n = (if (r + 1) * (r + 1) \<le> n then r + 1 else r)"
      using False by (subst isqrt.simps) (simp add: Let_def r_def m_def)
    show ?thesis
    proof (cases "(r + 1) * (r + 1) \<le> n")
      case True
      then have "isqrt n = r + 1" using eq by simp
      with True hi r0 show ?thesis by (simp add: algebra_simps)
    next
      case False
      then have "isqrt n = r" using eq by simp
      with False lo r0 show ?thesis by simp
    qed
  qed
qed

text \<open>
  Where the bound \<open>int(math.sqrt(n))\<close> is at least the integer square root of \<open>n\<close>
  and below \<open>n\<close>, the loop of \<open>is_prime\<close> decides primality.
\<close>

lemma is_prime_loop_iff: "is_prime_loop n xs \<longleftrightarrow> (\<forall>i \<in> set xs. \<not> i dvd n)"
  by (induction xs) (auto simp: dvd_eq_mod_eq_0)

lemma trial_division_prime:
  assumes "2 \<le> n" "0 \<le> r" "n < (r + 1) * (r + 1)" "r < n"
  shows "(\<forall>i \<in> {2..r}. \<not> i dvd n) \<longleftrightarrow> is_prime_number n"
proof
  assume a: "\<forall>i \<in> {2..r}. \<not> i dvd n"
  show "is_prime_number n"
  proof (cases "r = 0")
    case True
    with assms show ?thesis by simp
  next
    case False
    with assms(2) have "2 \<le> r + 1" by simp
    moreover have "\<forall>k. 2 \<le> k \<and> k < r + 1 \<longrightarrow> \<not> k dvd n" using a by simp
    ultimately show ?thesis
      using no_small_divisor_prime [OF assms(1) _ assms(3)] by blast
  qed
next
  assume "is_prime_number n"
  then show "\<forall>i \<in> {2..r}. \<not> i dvd n"
    using assms(4) by (simp add: is_prime_number_def)
qed

lemma is_prime_exact_bound:
  assumes "2 \<le> n" "math_sqrt n = Inr root" "int_of_float root = Inr r"
    "isqrt n \<le> r" "r < n"
  shows "is_prime n = Inr (is_prime_number n)"
proof -
  have b: "0 \<le> isqrt n" "n < (isqrt n + 1) * (isqrt n + 1)"
    using isqrt_bounds [of n] assms(1) by simp_all
  have r0: "0 \<le> r" using b(1) assms(4) by simp
  have "(isqrt n + 1) * (isqrt n + 1) \<le> (r + 1) * (r + 1)"
    using assms(4) b(1) by (intro mult_mono) simp_all
  with b(2) have "n < (r + 1) * (r + 1)" by simp
  from trial_division_prime [OF assms(1) r0 this assms(5)]
  have "is_prime_loop n [2..r] = is_prime_number n"
    by (simp add: is_prime_loop_iff)
  with assms(1,2,3) show ?thesis by (simp add: is_prime_def)
qed

text \<open>
  For \<open>1 \<le> n < 2 ^ 52\<close> the conversion to a double is exact and the rounded square
  root truncates to the integer square root, so that \<open>is_prime\<close> decides primality
  for every \<open>n < 2 ^ 52\<close>.
\<close>

lemma bit_length_bounds:
  "0 < x \<Longrightarrow> 2 ^ (bit_length x - 1) \<le> x \<and> x < 2 ^ bit_length x"
proof (induction x rule: bit_length.induct)
  case (1 x)
  have bl: "bit_length x = Suc (bit_length (x div 2))"
    using "1.prems" by (subst bit_length.simps) simp
  show ?case
  proof (cases "x div 2 = 0")
    case True
    then have "x = 1" using "1.prems" by presburger
    then show ?thesis
      by (simp add: bl True) (simp add: bit_length.simps)
  next
    case False
    then have pos: "0 < x div 2" using "1.prems" by presburger
    define b where "b = bit_length (x div 2)"
    have "b = Suc (bit_length (x div 2 div 2))"
      unfolding b_def using pos by (subst bit_length.simps) simp
    then obtain c where c: "b = Suc c" by blast
    from "1.IH" pos "1.prems" have IH: "2 ^ (b - 1) \<le> x div 2" "x div 2 < 2 ^ b"
      by (simp_all add: b_def)
    have "(2::int) ^ b = 2 * 2 ^ (b - 1)" using c by simp
    then have lo: "2 ^ b \<le> x" using IH(1) by presburger
    have "x div 2 + 1 \<le> 2 ^ b" using IH(2) by simp
    then have hi: "x < 2 * 2 ^ b" by presburger
    show ?thesis using lo hi by (simp add: bl b_def)
  qed
qed

lemma bit_length_le: "x < 2 ^ k \<Longrightarrow> bit_length x \<le> k"
proof (cases "0 < x")
  case False
  then show ?thesis by (subst bit_length.simps) simp
next
  case True
  assume a: "x < 2 ^ k"
  from bit_length_bounds [OF True] have "(2::int) ^ (bit_length x - 1) \<le> x" by blast
  with a have "(2::int) ^ (bit_length x - 1) < 2 ^ k" by linarith
  then have "bit_length x - 1 < k" by (rule power_less_imp_less_exp [rotated]) simp
  then show ?thesis by simp
qed

lemma bit_length_gt: "2 ^ k \<le> x \<Longrightarrow> k < bit_length x"
proof -
  assume a: "2 ^ k \<le> x"
  have "(0::int) < 2 ^ k" by simp
  with a have "0 < x" by linarith
  from bit_length_bounds [OF this] have "x < 2 ^ bit_length x" by blast
  with a have "(2::int) ^ k < 2 ^ bit_length x" by linarith
  then show ?thesis by (rule power_less_imp_less_exp [rotated]) simp
qed

lemma square_mono_int: "0 \<le> a \<Longrightarrow> a \<le> b \<Longrightarrow> a * a \<le> b * (b::int)"
  by (intro mult_mono) simp_all

lemma isqrt_ge: "0 \<le> a \<Longrightarrow> a * a \<le> y \<Longrightarrow> a \<le> isqrt y"
proof (rule ccontr)
  assume a: "0 \<le> a" "a * a \<le> y" "\<not> a \<le> isqrt y"
  have "0 \<le> a * a" by (rule zero_le_square)
  then have y0: "0 \<le> y" using a(2) by (rule order_trans)
  from isqrt_bounds [OF y0] have b: "0 \<le> isqrt y" "y < (isqrt y + 1) * (isqrt y + 1)"
    by simp_all
  have "isqrt y + 1 \<le> a" using a(3) by simp
  with b(1) have "(isqrt y + 1) * (isqrt y + 1) \<le> a * a"
    by (intro square_mono_int) simp_all
  with b(2) a(2) show False by simp
qed

lemma isqrt_less: "0 \<le> y \<Longrightarrow> 0 \<le> a \<Longrightarrow> y < a * a \<Longrightarrow> isqrt y < a"
proof (rule ccontr)
  assume a: "0 \<le> y" "0 \<le> a" "y < a * a" "\<not> isqrt y < a"
  from isqrt_bounds [OF a(1)] have b: "isqrt y * isqrt y \<le> y" by simp
  have "a \<le> isqrt y" using a(4) by simp
  with a(2) have "a * a \<le> isqrt y * isqrt y" by (rule square_mono_int)
  with b a(3) show False by simp
qed

lemma round_half_even_cases:
  "round_half_even x s st = x div 2 ^ s
   \<or> (round_half_even x s st = x div 2 ^ s + 1 \<and> 0 < s \<and> 2 ^ (s - 1) \<le> x mod 2 ^ s)"
  by (auto simp: round_half_even_def Let_def)

lemma sqrt_rounding_exact:
  fixes k r S T D B :: int
  assumes k: "1 \<le> k" "(k + 1) * (k + 1) \<le> B52"
    and B: "B = S * T" "0 < S" "0 < T" "S = 2 * D" "0 < D"
    and r: "k * B \<le> r" "r < (k + 1) * B" "r * r \<le> ((k + 1) * (k + 1) - 1) * (B * B)"
      "S * B52 \<le> r"
    and m: "m = r div S \<or> (m = r div S + 1 \<and> D \<le> r mod S)"
  shows "m div T = k"
proof -
  define q where "q = r div S"
  define rem where "rem = r mod S"
  have rq: "r = q * S + rem" by (simp add: q_def rem_def)
  have rem0: "0 \<le> rem" "rem < S" using B(2) by (simp_all add: rem_def)
  have qlo: "k * T \<le> q"
  proof -
    have "(k * T) * S \<le> r" using r(1) B(1) by (simp add: ac_simps)
    then have "((k * T) * S) div S \<le> r div S" using B(2) by (intro zdiv_mono1) simp_all
    then show ?thesis using B(2) by (simp add: q_def)
  qed
  have qhi: "q < (k + 1) * T"
  proof (rule ccontr)
    assume "\<not> q < (k + 1) * T"
    then have "(k + 1) * T \<le> q" by simp
    then have "((k + 1) * T) * S \<le> q * S" using B(2) by (intro mult_right_mono) simp_all
    also have "\<dots> \<le> r" using rq rem0 by simp
    finally have "(k + 1) * B \<le> r" using B(1) by (simp add: ac_simps)
    with r(2) show False by simp
  qed
  have mhi: "m < (k + 1) * T"
  proof (rule ccontr)
    assume c: "\<not> m < (k + 1) * T"
    with m qhi have m1: "m = q + 1" and drem: "D \<le> rem" by (auto simp: q_def rem_def)
    with c qhi have qeq: "q = (k + 1) * T - 1" by simp
    define A where "A = (k + 1) * B"
    have A0: "0 < A" using k(1) B by (simp add: A_def)
    have "q * S = ((k + 1) * T - 1) * S" by (simp only: qeq)
    also have "\<dots> = (k + 1) * (S * T) - S" by (simp add: algebra_simps)
    also have "\<dots> = A - S" by (simp add: A_def B(1))
    finally have "q * S = A - S" .
    then have rge: "A - D \<le> r" using rq drem B(4) by simp
    have AD0: "0 \<le> A - D"
    proof -
      have "S * 1 \<le> S * T" using B(2,3) by (intro mult_left_mono) simp_all
      then have sb: "S \<le> B" using B(1) by simp
      have "0 \<le> k * B" using k(1) B(1,2,3) by (intro mult_nonneg_nonneg) simp_all
      moreover have "A = k * B + B" by (simp add: A_def algebra_simps)
      ultimately show ?thesis using sb B(4,5) by linarith
    qed
    have "(A - D) * (A - D) \<le> r * r" using AD0 rge by (rule square_mono_int)
    also have "\<dots> \<le> ((k + 1) * (k + 1) - 1) * (B * B)" by (rule r(3))
    also have "\<dots> = A * A - B * B" by (simp add: A_def algebra_simps)
    finally have "A * A - 2 * A * D + D * D \<le> A * A - B * B"
      by (simp add: algebra_simps)
    then have "B * B + D * D \<le> A * S" using B(4) by (simp add: algebra_simps)
    moreover have "0 < D * D" using B(5) by simp
    ultimately have "B * B < A * S" by simp
    then have "B * B < B * ((k + 1) * S)" by (simp add: A_def algebra_simps)
    then have "B < (k + 1) * S" using B by (simp add: mult_less_cancel_left_pos)
    then have "S * T < S * (k + 1)" using B(1) by (simp add: mult.commute)
    then have Tk: "T < k + 1" using B(2) by (simp add: mult_less_cancel_left_pos)
    have "S * B52 < S * ((k + 1) * T)"
      using r(4) r(2) B(1) by (simp add: algebra_simps)
    then have lo: "B52 < (k + 1) * T" using B(2) by (simp add: mult_less_cancel_left_pos)
    have "(k + 1) * T \<le> (k + 1) * (k + 1)"
      using Tk k(1) by (intro mult_left_mono) simp_all
    with lo k(2) show False by simp
  qed
  have mlo: "k * T \<le> m" using m qlo by (auto simp: q_def)
  have "m = T * k + (m - k * T)" by simp
  moreover have "0 \<le> m - k * T" using mlo by simp
  moreover have "m - k * T < T" using mhi by (simp add: algebra_simps)
  ultimately show ?thesis by (rule int_div_pos_eq)
qed

lemma int_sqrt_float_exact:
  assumes "1 \<le> n" "n < 2 ^ 52"
  shows "math_sqrt n = Inr (sqrt_double n) \<and> int_of_float (sqrt_double n) = Inr (isqrt n)"
proof -
  define B :: int where "B = 2 ^ 64"
  define k where "k = isqrt n"
  define y where "y = n * 2 ^ 128"
  define r where "r = isqrt y"
  define s where "s = bit_length r - 53"
  define m where "m = round_half_even r s (r * r \<noteq> y)"
  have B0: "0 < B" by (simp add: B_def)
  have BB: "B * B = 2 ^ 128" by (simp add: B_def)
  have n0: "0 \<le> n" using assms(1) by simp
  have y0: "0 \<le> y" using n0 by (simp add: y_def)
  from isqrt_bounds [OF n0] have kb: "0 \<le> k" "k * k \<le> n" "n < (k + 1) * (k + 1)"
    by (simp_all add: k_def)
  have k1: "1 \<le> k" unfolding k_def using assms(1) by (intro isqrt_ge) simp_all
  have "k < 2 ^ 26" unfolding k_def using n0 assms(2) by (intro isqrt_less) simp_all
  then have "k + 1 \<le> 2 ^ 26" by simp
  then have "(k + 1) * (k + 1) \<le> 2 ^ 26 * 2 ^ 26" using kb(1) by (intro square_mono_int) simp_all
  then have k52: "(k + 1) * (k + 1) \<le> 2 ^ 52" by simp
  have yB: "y = n * (B * B)" by (simp add: y_def BB)
  have rlo: "k * B \<le> r"
  proof -
    have "(k * B) * (k * B) = (k * k) * (B * B)" by (simp add: ac_simps)
    also have "\<dots> \<le> n * (B * B)" using kb(2) B0 by (intro mult_right_mono) simp_all
    finally have "(k * B) * (k * B) \<le> y" by (simp add: yB)
    moreover have "0 \<le> k * B" using kb(1) B0 by simp
    ultimately show ?thesis unfolding r_def by (intro isqrt_ge)
  qed
  have rhi: "r < (k + 1) * B"
  proof -
    have "0 < B * B" using B0 by simp
    then have "n * (B * B) < ((k + 1) * (k + 1)) * (B * B)"
      using kb(3) by (intro mult_strict_right_mono)
    also have "\<dots> = ((k + 1) * B) * ((k + 1) * B)" by (simp add: ac_simps)
    finally have "y < ((k + 1) * B) * ((k + 1) * B)" by (simp add: yB)
    moreover have "0 \<le> (k + 1) * B" using kb(1) B0 by simp
    ultimately show ?thesis unfolding r_def using y0 by (intro isqrt_less)
  qed
  have rr: "r * r \<le> ((k + 1) * (k + 1) - 1) * (B * B)"
  proof -
    have "r * r \<le> y" using isqrt_bounds [OF y0] by (simp add: r_def)
    also have "y \<le> ((k + 1) * (k + 1) - 1) * (B * B)"
      unfolding yB using kb(3) B0 by (intro mult_right_mono) simp_all
    finally show ?thesis .
  qed
  have r0: "0 \<le> r" using isqrt_bounds [OF y0] by (simp add: r_def)
  have "1 * B \<le> k * B" using k1 B0 by (intro mult_right_mono) simp_all
  then have r64: "2 ^ 64 \<le> r" using rlo by (simp add: B_def)
  have "(k + 1) * B \<le> 2 ^ 26 * B" using \<open>k + 1 \<le> 2 ^ 26\<close> B0 by (intro mult_right_mono) simp_all
  then have r90: "r < 2 ^ 90" using rhi by (simp add: B_def)
  have bl_lo: "64 < bit_length r" using r64 by (rule bit_length_gt)
  have bl_hi: "bit_length r \<le> 90" using r90 by (rule bit_length_le)
  have s_lo: "12 \<le> s" and s_hi: "s \<le> 37" using bl_lo bl_hi by (simp_all add: s_def)
  have bl: "bit_length r - 1 = s + 52" using bl_lo by (simp add: s_def)
  have "(0::int) < 2 ^ 64" by simp
  with r64 have rpos: "0 < r" by linarith
  have "(2::int) ^ (bit_length r - 1) \<le> r"
    using bit_length_bounds [OF rpos] by blast
  moreover have "(2::int) ^ (bit_length r - 1) = 2 ^ s * 2 ^ 52"
    by (simp only: bl power_add)
  ultimately have pw: "2 ^ s * 2 ^ 52 \<le> r" by (simp only:)
  define t where "t = 64 - s"
  have st: "s + t = 64" using s_hi by (simp add: t_def)
  have Bst: "B = 2 ^ s * 2 ^ t" by (simp add: B_def power_add [symmetric] st)
  have SD: "(2::int) ^ s = 2 * 2 ^ (s - 1)"
    using s_lo by (cases s) simp_all
  have mc: "m = r div 2 ^ s \<or> (m = r div 2 ^ s + 1 \<and> 2 ^ (s - 1) \<le> r mod 2 ^ s)"
    using round_half_even_cases [of r s "r * r \<noteq> y"] by (auto simp: m_def)
  have mk: "m div 2 ^ t = k"
    by (rule sqrt_rounding_exact [OF k1 k52 Bst _ _ SD _ rlo rhi rr pw mc]) simp_all
  have m0: "0 \<le> m"
  proof -
    have "0 \<le> r div 2 ^ s" using r0 by (simp add: pos_imp_zdiv_nonneg_iff)
    with mc show ?thesis by auto
  qed
  have "bit_length n \<le> 53"
    using assms(2) by (intro bit_length_le) simp
  then have conv: "double_of_int \<bar>n\<bar> = Inr n"
    using n0 by (simp add: double_of_int_def)
  have npos: "\<not> n \<le> 0" using assms(1) by simp
  have sd: "sqrt_double n = Finite m (int s - 64)"
    using npos by (simp add: sqrt_double_def Let_def m_def s_def r_def y_def)
  have e: "\<not> 64 \<le> s" "nat (64 - int s) = t" using s_hi by (simp_all add: t_def)
  have "int_of_float (sqrt_double n) = Inr (m div 2 ^ t)"
    using e m0 by (simp add: sd)
  with mk conv n0 show ?thesis by (simp add: math_sqrt_def k_def)
qed

lemma is_prime_exact_small:
  assumes "n < 2 ^ 52"
  shows "is_prime n = Inr (is_prime_number n)"
proof (cases "n < 2")
  case True
  then show ?thesis by (simp add: is_prime_def is_prime_number_def)
next
  case False
  then have n2: "2 \<le> n" by simp
  then have "1 \<le> n" by simp
  from int_sqrt_float_exact [OF this assms]
  have a: "math_sqrt n = Inr (sqrt_double n)" "int_of_float (sqrt_double n) = Inr (isqrt n)"
    by simp_all
  have "isqrt n < n"
  proof -
    have "n * 1 < n * n" using n2 by (intro mult_strict_left_mono) simp_all
    then have "n < n * n" by simp
    then show ?thesis using n2 by (intro isqrt_less) simp_all
  qed
  with is_prime_exact_bound [OF n2 a] show ?thesis by simp
qed

lemma mot_vers_nombre_nonneg: "0 \<le> mot_vers_nombre mot"
proof -
  have "0 \<le> valeur c" for c
  proof (cases "ALPHABET_HEBREU c")
    case None
    then show ?thesis by (simp add: valeur_def)
  next
    case (Some v)
    then have "in_alphabet c" by (simp add: in_alphabet_def)
    from letter_value [OF this] Some show ?thesis by (auto simp: valeur_def)
  qed
  then have "0 \<le> sum_list (map valeur mot)"
    by (intro sum_list_nonneg) auto
  then show ?thesis
    by (simp add: mot_vers_nombre_def mot_vers_nombre_loop_sum sum_valeur_strip)
qed

lemma factorize_total: "\<exists>fs. factorize n = Some fs"
proof (cases "n < 2")
  case True
  then show ?thesis by (simp add: factorize_def)
next
  case False
  then have "2 \<le> n" by simp
  from factorize_ge_2 [OF this] show ?thesis by blast
qed

lemma analyser_nombre_total: "\<exists>res. analyser_nombre db n = Some res"
  using factorize_total [of n] by (auto simp: analyser_nombre_def)

lemma analyser_nombre_nonneg:
  assumes "0 \<le> n" "analyser_nombre db n = Some (Inr nr)"
  shows "res_decimal nr = n \<and> res_square_root nr \<noteq> NaN
       \<and> 45 \<notin> set (res_digest_input nr)"
proof -
  have sq: "math_sqrt n = Inr root \<Longrightarrow> root \<noteq> NaN" for root
    by (auto simp: math_sqrt_def sqrt_double_def Let_def split: sum.splits if_splits)
  have "str_int n = str_nat (nat n)" using assms(1) by (rule str_int_nonneg)
  then have nm: "45 \<notin> set (str_int n)"
    using str_nat_digits [of 45 "nat n"] by auto
  from assms(2) show ?thesis
    using assms(1) sq nm
    by (auto simp: analyser_nombre_def split: option.splits sum.splits)
qed

text \<open>The analysis of the number 52 and of two spellings of shalom, evaluated.\<close>

lemma analyser_nombre_52:
  "analyser_nombre db 52 = Some (Inr
         \<lparr> res_decimal = 52, res_parity_odd = False,
           res_factors = [2, 2, 13], res_prime = False,
           res_digit_sum = 7, res_digit_count = 2, res_square = 2704,
           res_cube = 140608,
           res_square_root = Finite 8118979690322419 (- 50),
           res_digest_input = [53, 50], res_valeur_gematria = 52 \<rparr>)"
proof -
  have f: "factorize 52 = Some [2, 2, 13]" by code_simp
  have p: "is_prime 52 = Inr False" by code_simp
  have s: "str_int 52 = [53, 50]" by (simp add: str_int_def str_nat.simps)
  have d: "digit_sum db [53, 50] 0 = Inr 7" by (simp add: int_str_def int_max_str_digits_def decimal_def)
  have q: "math_sqrt 52 = Inr (Finite 8118979690322419 (- 50))" by code_simp
  show ?thesis
    by (simp add: analyser_nombre_def f p s d q del: digit_sum.simps)
qed

lemma sequence_shalom:
  "decoder_sequence_hebreu db [50, 49, 46, 49, 50, 46, 54, 46, 49, 51] = Inr [1513, 1500, 1493, 1502]"
  by (simp add: decoder_sequence_hebreu_def isdigit_def isdigit_cp_def int_str_def
      int_max_str_digits_def decimal_def ALPHABET_INVERSE_def)

lemma analyser_shalom_final:
  "analyser_mot_hebreu db remdups [1513, 1500, 1493, 1501] = Some (Inr
     \<lparr> res_mot_original = [1513, 1500, 1493, 1501], res_longueur_mot = 4,
       res_sequence_hebreu = [50, 49, 46, 49, 50, 46, 54, 46, 49, 51],
       res_valeur_numerique = 52,
       res_mot_decode = [1513, 1500, 1493, 1502],
       res_est_palindrome = False, res_nombre_lettres = 4,
       res_lettres_uniques = [1493, 1500, 1501, 1513],
       res_gematria_valeur_simple = 52, res_gematria_valeur_miloui = 52,
       res_gematria_description = [71, 101, 109, 97, 116, 114, 105, 97, 58, 32, 53, 50],
       res_nombre =
         \<lparr> res_decimal = 52, res_parity_odd = False,
           res_factors = [2, 2, 13], res_prime = False,
           res_digit_sum = 7, res_digit_count = 2, res_square = 2704,
           res_cube = 140608,
           res_square_root = Finite 8118979690322419 (- 50),
           res_digest_input = [53, 50], res_valeur_gematria = 52 \<rparr> \<rparr>)"
proof -
  have enc: "encoder_mot_hebreu db [1513, 1500, 1493, 1501] = Inr [50, 49, 46, 49, 50, 46, 54, 46, 49, 51]"
    by (simp add: encoder_mot_hebreu_def strip_def isspace_def ALPHABET_HEBREU_def
        str_int_def str_nat.simps)
  have lu: "lettres_uniques_hebreu remdups [1513, 1500, 1493, 1501] = Inr [1493, 1500, 1501, 1513]"
    by (simp add: lettres_uniques_hebreu_def in_alphabet_def valeur_def ALPHABET_HEBREU_def)
  have mv: "mot_vers_nombre [1513, 1500, 1493, 1501] = 52"
    by (simp add: mot_vers_nombre_def strip_def isspace_def ALPHABET_HEBREU_def)
  have pal: "est_palindrome_hebreu [1513, 1500, 1493, 1501] = False"
    by (simp add: est_palindrome_hebreu_def strip_def isspace_def in_alphabet_def
        ALPHABET_HEBREU_def)
  have cnt: "compter_lettres_hebreu [1513, 1500, 1493, 1501] = 4"
    by (simp add: compter_lettres_hebreu_def in_alphabet_def ALPHABET_HEBREU_def)
  have gem: "calculer_gematria [1513, 1500, 1493, 1501]
      = (52, 52, [71, 101, 109, 97, 116, 114, 105, 97, 58, 32, 53, 50])"
    by (simp add: calculer_gematria_def mot_vers_nombre_def strip_def isspace_def
        ALPHABET_HEBREU_def str_int_def str_nat.simps)
  show ?thesis
    by (simp add: analyser_mot_hebreu_def enc sequence_shalom lu mv analyser_nombre_52 pal
        cnt gem)
qed

lemma analyser_shalom_decoded:
  "analyser_mot_hebreu db remdups [1513, 1500, 1493, 1502] = Some (Inr
     \<lparr> res_mot_original = [1513, 1500, 1493, 1502], res_longueur_mot = 4,
       res_sequence_hebreu = [50, 49, 46, 49, 50, 46, 54, 46, 49, 51],
       res_valeur_numerique = 52,
       res_mot_decode = [1513, 1500, 1493, 1502],
       res_est_palindrome = False, res_nombre_lettres = 4,
       res_lettres_uniques = [1493, 1500, 1502, 1513],
       res_gematria_valeur_simple = 52, res_gematria_valeur_miloui = 52,
       res_gematria_description = [71, 101, 109, 97, 116, 114, 105, 97, 58, 32, 53, 50],
       res_nombre =
         \<lparr> res_decimal = 52, res_parity_odd = False,
           res_factors = [2, 2, 13], res_prime = False,
           res_digit_sum = 7, res_digit_count = 2, res_square = 2704,
           res_cube = 140608,
           res_square_root = Finite 8118979690322419 (- 50),
           res_digest_input = [53, 50], res_valeur_gematria = 52 \<rparr> \<rparr>)"
proof -
  have enc: "encoder_mot_hebreu db [1513, 1500, 1493, 1502] = Inr [50, 49, 46, 49, 50, 46, 54, 46, 49, 51]"
    by (simp add: encoder_mot_hebreu_def strip_def isspace_def ALPHABET_HEBREU_def
        str_int_def str_nat.simps)
  have lu: "lettres_uniques_hebreu remdups [1513, 1500, 1493, 1502] = Inr [1493, 1500, 1502, 1513]"
    by (simp add: lettres_uniques_hebreu_def in_alphabet_def valeur_def ALPHABET_HEBREU_def)
  have mv: "mot_vers_nombre [1513, 1500, 1493, 1502] = 52"
    by (simp add: mot_vers_nombre_def strip_def isspace_def ALPHABET_HEBREU_def)
  have pal: "est_palindrome_hebreu [1513, 1500, 1493, 1502] = False"
    by (simp add: est_palindrome_hebreu_def strip_def isspace_def in_alphabet_def
        ALPHABET_HEBREU_def)
  have cnt: "compter_lettres_hebreu [1513, 1500, 1493, 1502] = 4"
    by (simp add: compter_lettres_hebreu_def in_alphabet_def ALPHABET_HEBREU_def)
  have gem: "calculer_gematria [1513, 1500, 1493, 1502]
      = (52, 52, [71, 101, 109, 97, 116, 114, 105, 97, 58, 32, 53, 50])"
    by (simp add: calculer_gematria_def mot_vers_nombre_def strip_def isspace_def
        ALPHABET_HEBREU_def str_int_def str_nat.simps)
  show ?thesis
    by (simp add: analyser_mot_hebreu_def enc sequence_shalom lu mv analyser_nombre_52 pal
        cnt gem)
qed

lemma analyser_52_literal:
  "analyser_mot_hebreu db remdups [53, 50] = Some (Inr
     \<lparr> res_mot_original = [53, 50], res_longueur_mot = 2,
       res_sequence_hebreu = [], res_valeur_numerique = 0,
       res_mot_decode = [], res_est_palindrome = True,
       res_nombre_lettres = 0, res_lettres_uniques = [],
       res_gematria_valeur_simple = 0, res_gematria_valeur_miloui = 0,
       res_gematria_description = [71, 101, 109, 97, 116, 114, 105, 97, 58, 32, 48],
       res_nombre =
         \<lparr> res_decimal = 0, res_parity_odd = False, res_factors = [0],
           res_prime = False, res_digit_sum = 0, res_digit_count = 1,
           res_square = 0, res_cube = 0, res_square_root = Finite 0 0,
           res_digest_input = [48], res_valeur_gematria = 0 \<rparr> \<rparr>)"
proof -
  have enc: "encoder_mot_hebreu db [53, 50] = Inr []"
    by (simp add: encoder_mot_hebreu_def strip_def isspace_def ALPHABET_HEBREU_def
        isalpha_def)
  have dec: "decoder_sequence_hebreu db [] = Inr []"
    by (simp add: decoder_sequence_hebreu_def isdigit_def)
  have lu: "lettres_uniques_hebreu remdups [53, 50] = Inr []"
    by (simp add: lettres_uniques_hebreu_def in_alphabet_def valeur_def ALPHABET_HEBREU_def)
  have mv: "mot_vers_nombre [53, 50] = 0"
    by (simp add: mot_vers_nombre_def strip_def isspace_def ALPHABET_HEBREU_def)
  have pal: "est_palindrome_hebreu [53, 50] = True"
    by (simp add: est_palindrome_hebreu_def strip_def isspace_def in_alphabet_def
        ALPHABET_HEBREU_def)
  have cnt: "compter_lettres_hebreu [53, 50] = 0"
    by (simp add: compter_lettres_hebreu_def in_alphabet_def ALPHABET_HEBREU_def)
  have gem: "calculer_gematria [53, 50]
      = (0, 0, [71, 101, 109, 97, 116, 114, 105, 97, 58, 32, 48])"
    by (simp add: calculer_gematria_def mot_vers_nombre_def strip_def isspace_def
        ALPHABET_HEBREU_def str_int_def str_nat.simps)
  have f: "factorize 0 = Some [0]" by (simp add: factorize_def)
  have p: "is_prime 0 = Inr False" by (simp add: is_prime_def)
  have s: "str_int 0 = [48]" by (simp add: str_int_def str_nat.simps)
  have d: "digit_sum db [48] 0 = Inr 0" by (simp add: int_str_def int_max_str_digits_def decimal_def)
  have q: "math_sqrt 0 = Inr (Finite 0 0)" by code_simp
  have an: "analyser_nombre db 0 = Some (Inr
         \<lparr> res_decimal = 0, res_parity_odd = False, res_factors = [0],
           res_prime = False, res_digit_sum = 0, res_digit_count = 1,
           res_square = 0, res_cube = 0, res_square_root = Finite 0 0,
           res_digest_input = [48], res_valeur_gematria = 0 \<rparr>)"
    by (simp add: analyser_nombre_def f p s d q del: digit_sum.simps)
  show ?thesis
    by (simp add: analyser_mot_hebreu_def enc dec lu mv an pal cnt gem)
qed

lemma digit_sum_digits:
  "(\<And>c. c \<in> set ds \<Longrightarrow> 48 \<le> c \<and> c \<le> 57) \<Longrightarrow> \<exists>v. digit_sum db ds acc = Inr v"
proof (induction ds arbitrary: acc)
  case Nil
  then show ?case by simp
next
  case (Cons d ds)
  then have "48 \<le> d \<and> d \<le> 57" by simp
  then have "int_str db [d] = Inr (int (d - 48))"
    by (simp add: int_str_def int_max_str_digits_def decimal_def)
  with Cons show ?case by simp
qed

lemma math_sqrt_result:
  "0 \<le> n \<Longrightarrow> math_sqrt n = Inl OverflowError \<or> (\<exists>m e. math_sqrt n = Inr (Finite m e))"
  by (auto simp: math_sqrt_def double_of_int_def sqrt_double_def Let_def split: sum.splits)

lemma is_prime_result: "is_prime n = Inl OverflowError \<or> (\<exists>b. is_prime n = Inr b)"
proof (cases "n < 2")
  case True
  then have "is_prime n = Inr False" by (simp add: is_prime_def)
  then show ?thesis by blast
next
  case False
  then have "0 \<le> n" by simp
  from math_sqrt_result [OF this] False show ?thesis
    by (auto simp: is_prime_def)
qed

lemma analyser_nombre_cases:
  assumes "0 \<le> n"
  shows "(\<exists>nr. analyser_nombre db n = Some (Inr nr) \<and> res_decimal nr = n
            \<and> res_square_root nr \<noteq> NaN \<and> 45 \<notin> set (res_digest_input nr))
       \<or> analyser_nombre db n = Some (Inl OverflowError)"
proof -
  obtain fs where fs: "factorize n = Some fs" using factorize_total by blast
  have sn: "str_int n = str_nat (nat n)" using assms by (rule str_int_nonneg)
  have "\<And>c. c \<in> set (str_int n) \<Longrightarrow> 48 \<le> c \<and> c \<le> 57"
    unfolding sn by (rule str_nat_digits)
  from digit_sum_digits [OF this] obtain v where v: "digit_sum db (str_int n) 0 = Inr v"
    by blast
  have nm: "45 \<notin> set (str_int n)"
    unfolding sn using str_nat_digits [of 45 "nat n"] by auto
  from is_prime_result [of n] show ?thesis
  proof
    assume "is_prime n = Inl OverflowError"
    then show ?thesis by (simp add: analyser_nombre_def fs)
  next
    assume "\<exists>b. is_prime n = Inr b"
    then obtain b where b: "is_prime n = Inr b" by blast
    from math_sqrt_result [OF assms] show ?thesis
    proof
      assume "math_sqrt n = Inl OverflowError"
      then show ?thesis using assms by (simp add: analyser_nombre_def fs b v)
    next
      assume "\<exists>m e. math_sqrt n = Inr (Finite m e)"
      then obtain m e where "math_sqrt n = Inr (Finite m e)" by blast
      then show ?thesis using assms nm by (simp add: analyser_nombre_def fs b v)
    qed
  qed
qed

lemma analyser_nombre_negative:
  assumes "n < 0"
  shows "analyser_nombre db n = Some (Inl ValueError)"
proof -
  have f: "factorize n = Some [n]" using assms by (simp add: factorize_def)
  have p: "is_prime n = Inr False" using assms by (simp add: is_prime_def)
  have s: "str_int n = 45 # str_nat (nat (- n))" using assms by (simp add: str_int_def)
  have d: "digit_sum db (45 # ds) 0 = Inl ValueError" for ds
    by (simp add: int_str_def int_max_str_digits_def decimal_def)
  show ?thesis by (simp add: analyser_nombre_def f p s d del: digit_sum.simps)
qed

lemma round_half_even_le: "round_half_even x s st \<le> x div 2 ^ s + 1"
  using round_half_even_cases [of x s st] by auto

lemma double_of_int_small:
  assumes "0 \<le> n" "n < 2 ^ 1023"
  shows "\<exists>x. double_of_int n = Inr x"
proof (cases "bit_length n \<le> 53")
  case True
  then show ?thesis by (simp add: double_of_int_def)
next
  case False
  define b where "b = bit_length n"
  define s where "s = b - 53"
  define m where "m = round_half_even n s False"
  have b53: "53 < b" using False by (simp add: b_def)
  have b1023: "b \<le> 1023" unfolding b_def using assms(2) by (rule bit_length_le)
  have bs: "b = 53 + s" using b53 by (simp add: s_def)
  have npos: "0 < n"
  proof (rule ccontr)
    assume "\<not> 0 < n"
    then have "bit_length n = 0" by (subst bit_length.simps) simp
    with False show False by simp
  qed
  from bit_length_bounds [OF npos] have "n < 2 ^ b" by (simp add: b_def)
  then have "n < 2 ^ 53 * 2 ^ s" by (simp only: bs power_add)
  have "n div 2 ^ s < 2 ^ 53"
  proof (rule ccontr)
    assume "\<not> n div 2 ^ s < 2 ^ 53"
    then have "2 ^ 53 \<le> n div 2 ^ s" by simp
    then have "2 ^ 53 * 2 ^ s \<le> (n div 2 ^ s) * 2 ^ s"
      by (intro mult_right_mono) simp_all
    also have "\<dots> \<le> (n div 2 ^ s) * 2 ^ s + n mod 2 ^ s" by simp
    also have "\<dots> = n" by (rule div_mult_mod_eq)
    finally show False using \<open>n < 2 ^ 53 * 2 ^ s\<close> by simp
  qed
  then have "m \<le> 2 ^ 53" using round_half_even_le [of n s False] by (simp add: m_def)
  then have "m * 2 ^ s \<le> 2 ^ 53 * 2 ^ s" by (intro mult_right_mono) simp_all
  also have "\<dots> = 2 ^ b" by (simp only: bs power_add)
  also have "\<dots> \<le> 2 ^ 1023" using b1023 by (intro power_increasing) simp_all
  finally have "m * 2 ^ s < 2 ^ 1024" by simp
  then show ?thesis
    using False by (simp add: double_of_int_def Let_def m_def s_def b_def)
qed

lemma valeur_le: "valeur c \<le> 22"
proof (cases "ALPHABET_HEBREU c")
  case None
  then show ?thesis by (simp add: valeur_def)
next
  case (Some v)
  then have "in_alphabet c" by (simp add: in_alphabet_def)
  from letter_value [OF this] Some show ?thesis by (auto simp: valeur_def)
qed

lemma mot_vers_nombre_le: "mot_vers_nombre mot \<le> 22 * int (length mot)"
proof -
  have "sum_list (map valeur w) \<le> 22 * int (length w)" for w
  proof (induction w)
    case Nil
    then show ?case by simp
  next
    case (Cons c w)
    with valeur_le [of c] show ?case by simp
  qed
  then show ?thesis
    by (simp add: mot_vers_nombre_def mot_vers_nombre_loop_sum sum_valeur_strip)
qed

lemma analyser_nombre_small:
  assumes "0 \<le> n" "n < 2 ^ 1023"
  shows "\<exists>nr. analyser_nombre db n = Some (Inr nr) \<and> res_decimal nr = n
           \<and> res_square_root nr \<noteq> NaN \<and> 45 \<notin> set (res_digest_input nr)"
proof -
  from double_of_int_small [OF assms] obtain x where "double_of_int n = Inr x" by blast
  then have sq: "math_sqrt n = Inr (sqrt_double x)" using assms(1) by (simp add: math_sqrt_def)
  have "sqrt_double x \<noteq> NaN" by (simp add: sqrt_double_def Let_def)
  then obtain m e where fin: "sqrt_double x = Finite m e"
    by (cases "sqrt_double x") auto
  have "\<exists>b. is_prime n = Inr b"
  proof (cases "n < 2")
    case True
    then have "is_prime n = Inr False" by (simp add: is_prime_def)
    then show ?thesis by blast
  next
    case False
    then have "is_prime n = Inr (is_prime_loop n [2..(case int_of_float (Finite m e) of Inr r \<Rightarrow> r | Inl _ \<Rightarrow> 0)])"
      by (simp add: is_prime_def sq fin)
    then show ?thesis by blast
  qed
  then have ip: "is_prime n \<noteq> Inl OverflowError" by auto
  have "analyser_nombre db n \<noteq> Some (Inl OverflowError)"
  proof
    assume a: "analyser_nombre db n = Some (Inl OverflowError)"
    obtain fs where fs: "factorize n = Some fs" using factorize_total by blast
    obtain b where b: "is_prime n = Inr b" using \<open>\<exists>b. is_prime n = Inr b\<close> by blast
    have sn: "str_int n = str_nat (nat n)" using assms(1) by (rule str_int_nonneg)
    have "\<And>c. c \<in> set (str_int n) \<Longrightarrow> 48 \<le> c \<and> c \<le> 57"
      unfolding sn by (rule str_nat_digits)
    from digit_sum_digits [OF this] obtain v where v: "digit_sum db (str_int n) 0 = Inr v"
      by blast
    from a show False
      using assms(1) by (simp add: analyser_nombre_def fs b sq v)
  qed
  with analyser_nombre_cases [OF assms(1), of db] show ?thesis by blast
qed

lemma analyser_nombre_word:
  assumes "length mot < 2 ^ 63"
  shows "\<exists>nr. analyser_nombre db (mot_vers_nombre mot) = Some (Inr nr)
           \<and> res_decimal nr = mot_vers_nombre mot
           \<and> res_square_root nr \<noteq> NaN \<and> 45 \<notin> set (res_digest_input nr)"
proof -
  have "int (length mot) < 2 ^ 63" using assms by (simp add: of_nat_less_iff [symmetric] del: of_nat_less_iff)
  then have "22 * int (length mot) < 22 * 2 ^ 63" by simp
  also have "(22::int) * 2 ^ 63 < 2 ^ 1023" by simp
  finally have "mot_vers_nombre mot < 2 ^ 1023" using mot_vers_nombre_le [of mot] by simp
  with mot_vers_nombre_nonneg [of mot] show ?thesis by (rule analyser_nombre_small)
qed

text \<open>
  C9: \<open>mot_vers_nombre\<close> is never negative, and \<open>analyser_mot_hebreu\<close> always returns.
  The number analysis of the value of the word gives a result (whose square root is
  not \<open>NaN\<close> and whose decimal string has no minus sign, 45) or raises
  \<open>OverflowError\<close>, and \<open>analyser_mot_hebreu\<close> ends in exactly one of these ways: a
  result that holds this number analysis, \<open>OverflowError\<close>, or the exception of the
  encoder, of the decoder or of the unique letters.  For a negative number the number
  analysis raises \<open>ValueError\<close> on the minus sign, which the analysis of a word thus
  never meets.  For a word of fewer than \<open>2 ^ 63\<close> characters (every string is) the
  number analysis gives a result.
\<close>

theorem analyser_mot_hebreu_nonneg:
  "0 \<le> mot_vers_nombre mot
   \<and> (\<exists>res. analyser_mot_hebreu db set_iter mot = Some res)
   \<and> (analyser_mot_hebreu db set_iter mot = Some (Inr r) \<longrightarrow>
        res_valeur_numerique r = mot_vers_nombre mot
        \<and> res_decimal (res_nombre r) = res_valeur_numerique r
        \<and> 0 \<le> res_decimal (res_nombre r)
        \<and> res_square_root (res_nombre r) \<noteq> NaN
        \<and> 45 \<notin> set (res_digest_input (res_nombre r)))
   \<and> ((\<exists>nr. analyser_nombre db (mot_vers_nombre mot) = Some (Inr nr)
            \<and> res_decimal nr = mot_vers_nombre mot
            \<and> res_square_root nr \<noteq> NaN \<and> 45 \<notin> set (res_digest_input nr))
        \<or> analyser_nombre db (mot_vers_nombre mot) = Some (Inl OverflowError))
   \<and> ((\<exists>r'. analyser_mot_hebreu db set_iter mot = Some (Inr r')
            \<and> analyser_nombre db (mot_vers_nombre mot) = Some (Inr (res_nombre r'))
            \<and> res_decimal (res_nombre r') = mot_vers_nombre mot
            \<and> res_square_root (res_nombre r') \<noteq> NaN
            \<and> 45 \<notin> set (res_digest_input (res_nombre r')))
        \<or> analyser_mot_hebreu db set_iter mot = Some (Inl OverflowError)
        \<or> (\<exists>e. encoder_mot_hebreu db mot = Inl e
              \<and> analyser_mot_hebreu db set_iter mot = Some (Inl e))
        \<or> (\<exists>seq e. encoder_mot_hebreu db mot = Inr seq
              \<and> decoder_sequence_hebreu db seq = Inl e
              \<and> analyser_mot_hebreu db set_iter mot = Some (Inl e))
        \<or> (\<exists>e. lettres_uniques_hebreu set_iter mot = Inl e
              \<and> analyser_mot_hebreu db set_iter mot = Some (Inl e)))
   \<and> (n < 0 \<longrightarrow> analyser_nombre db n = Some (Inl ValueError))
   \<and> (length mot < 2 ^ 63 \<longrightarrow>
        (\<exists>nr. analyser_nombre db (mot_vers_nombre mot) = Some (Inr nr)
            \<and> res_decimal nr = mot_vers_nombre mot
            \<and> res_square_root nr \<noteq> NaN \<and> 45 \<notin> set (res_digest_input nr)))"
proof -
  have nn: "0 \<le> mot_vers_nombre mot" by (rule mot_vers_nombre_nonneg)
  obtain nres where nres: "analyser_nombre db (mot_vers_nombre mot) = Some nres"
    using analyser_nombre_total by blast
  have tot: "\<exists>res. analyser_mot_hebreu db set_iter mot = Some res"
    using nres by (auto simp: analyser_mot_hebreu_def split: sum.splits prod.splits)
  have fields: "res_valeur_numerique r = mot_vers_nombre mot
        \<and> res_decimal (res_nombre r) = res_valeur_numerique r
        \<and> 0 \<le> res_decimal (res_nombre r)
        \<and> res_square_root (res_nombre r) \<noteq> NaN
        \<and> 45 \<notin> set (res_digest_input (res_nombre r))"
    if r: "analyser_mot_hebreu db set_iter mot = Some (Inr r)"
  proof -
    from r obtain nr where nr: "analyser_nombre db (mot_vers_nombre mot) = Some (Inr nr)"
      and rn: "res_nombre r = nr" and rv: "res_valeur_numerique r = mot_vers_nombre mot"
      by (auto simp: analyser_mot_hebreu_def split: sum.splits prod.splits option.splits)
    from analyser_nombre_nonneg [OF nn nr] rn rv nn show ?thesis by simp
  qed
  note an = analyser_nombre_cases [OF nn, of db]
  have ways: "(\<exists>r'. analyser_mot_hebreu db set_iter mot = Some (Inr r')
            \<and> analyser_nombre db (mot_vers_nombre mot) = Some (Inr (res_nombre r'))
            \<and> res_decimal (res_nombre r') = mot_vers_nombre mot
            \<and> res_square_root (res_nombre r') \<noteq> NaN
            \<and> 45 \<notin> set (res_digest_input (res_nombre r')))
        \<or> analyser_mot_hebreu db set_iter mot = Some (Inl OverflowError)
        \<or> (\<exists>e. encoder_mot_hebreu db mot = Inl e
              \<and> analyser_mot_hebreu db set_iter mot = Some (Inl e))
        \<or> (\<exists>seq e. encoder_mot_hebreu db mot = Inr seq
              \<and> decoder_sequence_hebreu db seq = Inl e
              \<and> analyser_mot_hebreu db set_iter mot = Some (Inl e))
        \<or> (\<exists>e. lettres_uniques_hebreu set_iter mot = Inl e
              \<and> analyser_mot_hebreu db set_iter mot = Some (Inl e))"
  proof (cases "encoder_mot_hebreu db mot")
    case (Inl e)
    then show ?thesis by (simp add: analyser_mot_hebreu_def)
  next
    case enc: (Inr seq)
    show ?thesis
    proof (cases "decoder_sequence_hebreu db seq")
      case (Inl e)
      with enc show ?thesis by (simp add: analyser_mot_hebreu_def)
    next
      case dec: (Inr w)
      show ?thesis
      proof (cases "lettres_uniques_hebreu set_iter mot")
        case (Inl e)
        with enc dec show ?thesis by (simp add: analyser_mot_hebreu_def)
      next
        case lu: (Inr u)
        from an show ?thesis
        proof
          assume "analyser_nombre db (mot_vers_nombre mot) = Some (Inl OverflowError)"
          with enc dec lu show ?thesis
            by (simp add: analyser_mot_hebreu_def split: prod.splits)
        next
          assume "\<exists>nr. analyser_nombre db (mot_vers_nombre mot) = Some (Inr nr)
            \<and> res_decimal nr = mot_vers_nombre mot
            \<and> res_square_root nr \<noteq> NaN \<and> 45 \<notin> set (res_digest_input nr)"
          then obtain nr where nr: "analyser_nombre db (mot_vers_nombre mot) = Some (Inr nr)"
            "res_decimal nr = mot_vers_nombre mot" "res_square_root nr \<noteq> NaN"
            "45 \<notin> set (res_digest_input nr)" by blast
          obtain simple miloui description
            where g: "calculer_gematria mot = (simple, miloui, description)"
            by (cases "calculer_gematria mot") auto
          obtain r' where r': "analyser_mot_hebreu db set_iter mot = Some (Inr r')"
            "res_nombre r' = nr"
            using enc dec lu nr(1) g
            by (simp add: analyser_mot_hebreu_def)
          with nr have "analyser_mot_hebreu db set_iter mot = Some (Inr r')
            \<and> analyser_nombre db (mot_vers_nombre mot) = Some (Inr (res_nombre r'))
            \<and> res_decimal (res_nombre r') = mot_vers_nombre mot
            \<and> res_square_root (res_nombre r') \<noteq> NaN
            \<and> 45 \<notin> set (res_digest_input (res_nombre r'))" by simp
          then show ?thesis by blast
        qed
      qed
    qed
  qed
  have neg: "n < 0 \<longrightarrow> analyser_nombre db n = Some (Inl ValueError)"
    using analyser_nombre_negative by blast
  have word: "length mot < 2 ^ 63 \<longrightarrow>
        (\<exists>nr. analyser_nombre db (mot_vers_nombre mot) = Some (Inr nr)
            \<and> res_decimal nr = mot_vers_nombre mot
            \<and> res_square_root nr \<noteq> NaN \<and> 45 \<notin> set (res_digest_input nr))"
    using analyser_nombre_word [of mot db] by blast
  have old: "analyser_mot_hebreu db set_iter mot = Some (Inr r) \<longrightarrow>
        res_valeur_numerique r = mot_vers_nombre mot
        \<and> res_decimal (res_nombre r) = res_valeur_numerique r
        \<and> 0 \<le> res_decimal (res_nombre r)
        \<and> res_square_root (res_nombre r) \<noteq> NaN
        \<and> 45 \<notin> set (res_digest_input (res_nombre r))"
    using fields by blast
  from nn tot old an ways neg word show ?thesis by (intro conjI)
qed

theorem analyser_mot_hebreu_nonneg_witness:
  "analyser_mot_hebreu ucd_latin1 remdups [1513, 1500, 1493, 1501] = Some (Inr
     \<lparr> res_mot_original = [1513, 1500, 1493, 1501], res_longueur_mot = 4,
       res_sequence_hebreu = [50, 49, 46, 49, 50, 46, 54, 46, 49, 51],
       res_valeur_numerique = 52,
       res_mot_decode = [1513, 1500, 1493, 1502],
       res_est_palindrome = False, res_nombre_lettres = 4,
       res_lettres_uniques = [1493, 1500, 1501, 1513],
       res_gematria_valeur_simple = 52, res_gematria_valeur_miloui = 52,
       res_gematria_description = [71, 101, 109, 97, 116, 114, 105, 97, 58, 32, 53, 50],
       res_nombre =
         \<lparr> res_decimal = 52, res_parity_odd = False,
           res_factors = [2, 2, 13], res_prime = False,
           res_digit_sum = 7, res_digit_count = 2, res_square = 2704,
           res_cube = 140608,
           res_square_root = Finite 8118979690322419 (- 50),
           res_digest_input = [53, 50], res_valeur_gematria = 52 \<rparr> \<rparr>)
   \<and> Finite 8118979690322419 (- 50) \<noteq> NaN \<and> 45 \<notin> set [53, 50 :: nat]
   \<and> (- 1 :: int) < 0 \<and> analyser_nombre ucd_latin1 (- 1) = Some (Inl ValueError)
   \<and> length [1513, 1500, 1493, 1501 :: nat] < 2 ^ 63"
proof -
  let ?r = "\<lparr> res_mot_original = [1513, 1500, 1493, 1501], res_longueur_mot = 4,
       res_sequence_hebreu = [50, 49, 46, 49, 50, 46, 54, 46, 49, 51],
       res_valeur_numerique = 52,
       res_mot_decode = [1513, 1500, 1493, 1502],
       res_est_palindrome = False, res_nombre_lettres = 4,
       res_lettres_uniques = [1493, 1500, 1501, 1513],
       res_gematria_valeur_simple = 52, res_gematria_valeur_miloui = 52,
       res_gematria_description = [71, 101, 109, 97, 116, 114, 105, 97, 58, 32, 53, 50],
       res_nombre =
         \<lparr> res_decimal = 52, res_parity_odd = False,
           res_factors = [2, 2, 13], res_prime = False,
           res_digit_sum = 7, res_digit_count = 2, res_square = 2704,
           res_cube = 140608,
           res_square_root = Finite 8118979690322419 (- 50),
           res_digest_input = [53, 50], res_valeur_gematria = 52 \<rparr> \<rparr>"
  have e: "analyser_mot_hebreu ucd_latin1 remdups [1513, 1500, 1493, 1501] = Some (Inr ?r)"
    by (rule analyser_shalom_final)
  note t = analyser_mot_hebreu_nonneg [of "[1513, 1500, 1493, 1501]" ucd_latin1 remdups ?r "- 1"]
  from t e
  have "res_square_root (res_nombre ?r) \<noteq> NaN
      \<and> 45 \<notin> set (res_digest_input (res_nombre ?r))"
    by blast
  moreover from t have "analyser_nombre ucd_latin1 (- 1) = Some (Inl ValueError)"
    by simp
  ultimately show ?thesis using e by simp
qed

lemma split_tokens_subset: "t \<in> set (split sep s) \<Longrightarrow> set t \<subseteq> set s"
proof (induction s arbitrary: t)
  case Nil
  then show ?case by simp
next
  case (Cons c cs)
  show ?case
  proof (cases "c = sep")
    case True
    with Cons show ?thesis by auto
  next
    case False
    obtain u us where u: "split sep cs = u # us"
      using split_ne [of sep cs] by (cases "split sep cs") auto
    with False Cons.prems have "t = c # u \<or> t \<in> set us" by simp
    then show ?thesis
    proof
      assume "t = c # u"
      moreover have "set u \<subseteq> set cs" using Cons.IH [of u] u by simp
      ultimately show ?thesis by auto
    next
      assume "t \<in> set us"
      then have "set t \<subseteq> set cs" using Cons.IH [of t] u by simp
      then show ?thesis by auto
    qed
  qed
qed

lemma strip_subset: "set (strip s) \<subseteq> set s"
proof -
  have "set (strip s) \<subseteq> set (rev (dropWhile isspace s))"
    unfolding strip_def set_rev by (auto dest: set_dropWhileD)
  also have "\<dots> \<subseteq> set s" by (auto dest: set_dropWhileD)
  finally show ?thesis .
qed

lemma ascii_digits_literal:
  assumes "list_all (\<lambda>c. 48 \<le> c \<and> c \<le> 57) arg"
  shows "strip arg = arg \<and> 46 \<notin> set arg \<and> mot_vers_nombre arg = 0"
proof -
  have d: "\<And>c. c \<in> set arg \<Longrightarrow> 48 \<le> c \<and> c \<le> 57"
    using assms by (simp add: list_all_iff)
  have "\<And>c. c \<in> set arg \<Longrightarrow> \<not> isspace c"
    using d by (fastforce simp: isspace_def)
  then have s: "strip arg = arg" by (rule strip_no_space)
  have nd: "46 \<notin> set arg" using d by fastforce
  have "\<And>c. c \<in> set arg \<Longrightarrow> valeur c = 0"
  proof -
    fix c assume "c \<in> set arg"
    then have "48 \<le> c \<and> c \<le> 57" by (rule d)
    then have "ALPHABET_HEBREU c = None" using alphabet_dom [of c] by auto
    then show "valeur c = 0" by (simp add: valeur_def)
  qed
  then have "sum_list (map valeur arg) = 0"
    by (induction arg) simp_all
  then have "mot_vers_nombre arg = 0"
    by (simp add: mot_vers_nombre_def mot_vers_nombre_loop_sum sum_valeur_strip)
  with s nd show ?thesis by simp
qed

lemma sequence_decimal:
  assumes "\<forall>c \<in> set arg. isdigit_cp db c \<longrightarrow> decimal db c \<noteq> None"
    and "est_sequence_numerique db (strip arg)"
  shows "46 \<in> set (strip arg)
        \<and> list_all (\<lambda>t. t \<noteq> [] \<and> list_all (\<lambda>c. decimal db c \<noteq> None) t)
            (split 46 (strip arg))"
proof -
  have sub: "\<And>t. t \<in> set (split 46 (strip arg)) \<Longrightarrow> set t \<subseteq> set arg"
    using split_tokens_subset strip_subset by blast
  have "list_all (\<lambda>t. t \<noteq> [] \<and> list_all (\<lambda>c. decimal db c \<noteq> None) t)
            (split 46 (strip arg))"
    unfolding list_all_iff
  proof
    fix t assume t: "t \<in> set (split 46 (strip arg))"
    with assms(2) have "isdigit db t"
      by (simp add: est_sequence_numerique_def list_all_iff)
    then have "t \<noteq> []" and dg: "\<forall>c \<in> set t. isdigit_cp db c"
      by (simp_all add: isdigit_def list_all_iff)
    moreover have "\<forall>c \<in> set t. decimal db c \<noteq> None"
      using dg sub [OF t] assms(1) by blast
    ultimately show "t \<noteq> [] \<and> (\<forall>c \<in> set t. decimal db c \<noteq> None)" by simp
  qed
  with assms(2) show ?thesis by (simp add: est_sequence_numerique_def)
qed

text \<open>The analysis of the word aleph bet, of value 3, evaluated.\<close>

lemma analyser_aleph_bet:
  "analyser_mot_hebreu db remdups [1488, 1489] = Some (Inr
     \<lparr> res_mot_original = [1488, 1489], res_longueur_mot = 2,
       res_sequence_hebreu = [49, 46, 50], res_valeur_numerique = 3,
       res_mot_decode = [1488, 1489], res_est_palindrome = False,
       res_nombre_lettres = 2, res_lettres_uniques = [1488, 1489],
       res_gematria_valeur_simple = 3, res_gematria_valeur_miloui = 3,
       res_gematria_description = [71, 101, 109, 97, 116, 114, 105, 97, 58, 32, 51],
       res_nombre =
         \<lparr> res_decimal = 3, res_parity_odd = True, res_factors = [3],
           res_prime = True, res_digit_sum = 3, res_digit_count = 1,
           res_square = 9, res_cube = 27,
           res_square_root = Finite 7800463371553962 (- 52),
           res_digest_input = [51], res_valeur_gematria = 3 \<rparr> \<rparr>)"
proof -
  have enc: "encoder_mot_hebreu db [1488, 1489] = Inr [49, 46, 50]"
    by (simp add: encoder_mot_hebreu_def strip_def isspace_def ALPHABET_HEBREU_def
        str_int_def str_nat.simps)
  have dec: "decoder_sequence_hebreu db [49, 46, 50] = Inr [1488, 1489]"
    by (simp add: decoder_sequence_hebreu_def isdigit_def isdigit_cp_def int_str_def
        int_max_str_digits_def decimal_def ALPHABET_INVERSE_def)
  have lu: "lettres_uniques_hebreu remdups [1488, 1489] = Inr [1488, 1489]"
    by (simp add: lettres_uniques_hebreu_def in_alphabet_def valeur_def ALPHABET_HEBREU_def)
  have mv: "mot_vers_nombre [1488, 1489] = 3"
    by (simp add: mot_vers_nombre_def strip_def isspace_def ALPHABET_HEBREU_def)
  have pal: "est_palindrome_hebreu [1488, 1489] = False"
    by (simp add: est_palindrome_hebreu_def strip_def isspace_def in_alphabet_def
        ALPHABET_HEBREU_def)
  have cnt: "compter_lettres_hebreu [1488, 1489] = 2"
    by (simp add: compter_lettres_hebreu_def in_alphabet_def ALPHABET_HEBREU_def)
  have gem: "calculer_gematria [1488, 1489]
      = (3, 3, [71, 101, 109, 97, 116, 114, 105, 97, 58, 32, 51])"
    by (simp add: calculer_gematria_def mot_vers_nombre_def strip_def isspace_def
        ALPHABET_HEBREU_def str_int_def str_nat.simps)
  have f: "factorize 3 = Some [3]" by code_simp
  have p: "is_prime 3 = Inr True" by code_simp
  have s: "str_int 3 = [51]" by (simp add: str_int_def str_nat.simps)
  have d: "digit_sum db [51] 0 = Inr 3"
    by (simp add: int_str_def int_max_str_digits_def decimal_def)
  have q: "math_sqrt 3 = Inr (Finite 7800463371553962 (- 52))" by code_simp
  have an: "analyser_nombre db 3 = Some (Inr
         \<lparr> res_decimal = 3, res_parity_odd = True, res_factors = [3],
           res_prime = True, res_digit_sum = 3, res_digit_count = 1,
           res_square = 9, res_cube = 27,
           res_square_root = Finite 7800463371553962 (- 52),
           res_digest_input = [51], res_valeur_gematria = 3 \<rparr>)"
    by (simp add: analyser_nombre_def f p s d q del: digit_sum.simps)
  show ?thesis
    by (simp add: analyser_mot_hebreu_def enc dec lu mv an pal cnt gem)
qed

text \<open>
  C10 fails as stated.  The argument blank 1.2 has the token blank 1, which is not made
  of digits, and is decoded all the same (to aleph bet), since \<open>main\<close> strips the
  argument first.  The argument 1.SUPERSCRIPT TWO passes the test and goes to the
  decoder, which raises, although U+00B2 is not a decimal digit.
\<close>

theorem main_routing_counterexample:
  "split 46 [32, 49, 46, 50] = [[32, 49], [50]]
   \<and> decimal ucd_latin1 32 = None
   \<and> main ucd_latin1 remdups [[], [32, 49, 46, 50]] = Some (Report (Some [1488, 1489])
     \<lparr> res_mot_original = [1488, 1489], res_longueur_mot = 2,
       res_sequence_hebreu = [49, 46, 50], res_valeur_numerique = 3,
       res_mot_decode = [1488, 1489], res_est_palindrome = False,
       res_nombre_lettres = 2, res_lettres_uniques = [1488, 1489],
       res_gematria_valeur_simple = 3, res_gematria_valeur_miloui = 3,
       res_gematria_description = [71, 101, 109, 97, 116, 114, 105, 97, 58, 32, 51],
       res_nombre =
         \<lparr> res_decimal = 3, res_parity_odd = True, res_factors = [3],
           res_prime = True, res_digit_sum = 3, res_digit_count = 1,
           res_square = 9, res_cube = 27,
           res_square_root = Finite 7800463371553962 (- 52),
           res_digest_input = [51], res_valeur_gematria = 3 \<rparr> \<rparr>)
   \<and> est_sequence_numerique ucd_latin1 [49, 46, 178]
   \<and> decimal ucd_latin1 178 = None
   \<and> main ucd_latin1 remdups [[], [49, 46, 178]] = Some (Failure ValueError)"
proof -
  have a: "split 46 [32, 49, 46, 50] = [[32, 49], [50]]" by simp
  have b: "decimal ucd_latin1 32 = None" by (simp add: decimal_def)
  have s1: "strip [32, 49, 46, 50] = [49, 46, 50]" by (simp add: strip_def isspace_def)
  have e1: "est_sequence_numerique ucd_latin1 [49, 46, 50]"
    by (simp add: est_sequence_numerique_def isdigit_def isdigit_cp_def)
  have d1: "decoder_sequence_hebreu ucd_latin1 [49, 46, 50] = Inr [1488, 1489]"
    by (simp add: decoder_sequence_hebreu_def isdigit_def isdigit_cp_def int_str_def
        int_max_str_digits_def decimal_def ALPHABET_INVERSE_def)
  have c: "main ucd_latin1 remdups [[], [32, 49, 46, 50]] = Some (Report (Some [1488, 1489])
     \<lparr> res_mot_original = [1488, 1489], res_longueur_mot = 2,
       res_sequence_hebreu = [49, 46, 50], res_valeur_numerique = 3,
       res_mot_decode = [1488, 1489], res_est_palindrome = False,
       res_nombre_lettres = 2, res_lettres_uniques = [1488, 1489],
       res_gematria_valeur_simple = 3, res_gematria_valeur_miloui = 3,
       res_gematria_description = [71, 101, 109, 97, 116, 114, 105, 97, 58, 32, 51],
       res_nombre =
         \<lparr> res_decimal = 3, res_parity_odd = True, res_factors = [3],
           res_prime = True, res_digit_sum = 3, res_digit_count = 1,
           res_square = 9, res_cube = 27,
           res_square_root = Finite 7800463371553962 (- 52),
           res_digest_input = [51], res_valeur_gematria = 3 \<rparr> \<rparr>)"
    by (simp add: main_def s1 e1 d1 analyser_aleph_bet rapport_def)
  have s2: "strip [49, 46, 178] = [49, 46, 178]" by (simp add: strip_def isspace_def)
  have e2: "est_sequence_numerique ucd_latin1 [49, 46, 178]"
    by (simp add: est_sequence_numerique_def isdigit_def isdigit_cp_def ucd_latin1_def)
  have f: "decimal ucd_latin1 178 = None" by (simp add: decimal_def ucd_latin1_def)
  have d2: "decoder_sequence_hebreu ucd_latin1 [49, 46, 178] = Inl ValueError"
    by (simp add: decoder_sequence_hebreu_def isdigit_def isdigit_cp_def int_str_def
        int_max_str_digits_def decimal_def ucd_latin1_def ALPHABET_INVERSE_def)
  have g: "main ucd_latin1 remdups [[], [49, 46, 178]] = Some (Failure ValueError)"
    by (simp add: main_def s2 e2 d2)
  from a b c e2 f g show ?thesis by (intro conjI)
qed

text \<open>
  C10, amended: for an argument whose digit characters all have a decimal value, the
  argument, stripped of surrounding whitespace, goes to the decoder only if it contains
  a dot (46) and every dot-separated token is non-empty and consists of decimal digits
  only; otherwise it is analysed as a literal word.  So an argument of ASCII digits
  without a dot, such as 52, is analysed as a literal word, of value 0, and is not
  decoded.
\<close>

theorem main_routing:
  assumes "\<forall>c \<in> set arg. isdigit_cp db c \<longrightarrow> decimal db c \<noteq> None"
  shows "(est_sequence_numerique db (strip arg) \<longrightarrow>
        46 \<in> set (strip arg)
        \<and> list_all (\<lambda>t. t \<noteq> [] \<and> list_all (\<lambda>c. decimal db c \<noteq> None) t)
            (split 46 (strip arg)))
   \<and> (est_sequence_numerique db (strip arg) \<longrightarrow>
        main db set_iter [prog, arg] =
          (case decoder_sequence_hebreu db (strip arg) of
             Inl e \<Rightarrow> Some (Failure e)
           | Inr mot_decode \<Rightarrow>
               rapport (Some mot_decode) (analyser_mot_hebreu db set_iter mot_decode)))
   \<and> (\<not> (46 \<in> set (strip arg)
        \<and> list_all (\<lambda>t. t \<noteq> [] \<and> list_all (\<lambda>c. decimal db c \<noteq> None) t)
            (split 46 (strip arg))) \<longrightarrow>
        main db set_iter [prog, arg]
          = rapport None (analyser_mot_hebreu db set_iter (strip arg)))
   \<and> (main db set_iter [prog, arg] = Some (Report (Some d) r) \<longrightarrow>
        46 \<in> set (strip arg)
        \<and> list_all (\<lambda>t. t \<noteq> [] \<and> list_all (\<lambda>c. decimal db c \<noteq> None) t)
            (split 46 (strip arg)))
   \<and> (list_all (\<lambda>c. 48 \<le> c \<and> c \<le> 57) arg \<longrightarrow>
        main db set_iter [prog, arg] = rapport None (analyser_mot_hebreu db set_iter arg)
        \<and> mot_vers_nombre arg = 0)
   \<and> main db remdups [prog, [53, 50]] = Some (Report None
     \<lparr> res_mot_original = [53, 50], res_longueur_mot = 2,
       res_sequence_hebreu = [], res_valeur_numerique = 0,
       res_mot_decode = [], res_est_palindrome = True,
       res_nombre_lettres = 0, res_lettres_uniques = [],
       res_gematria_valeur_simple = 0, res_gematria_valeur_miloui = 0,
       res_gematria_description = [71, 101, 109, 97, 116, 114, 105, 97, 58, 32, 48],
       res_nombre =
         \<lparr> res_decimal = 0, res_parity_odd = False, res_factors = [0],
           res_prime = False, res_digit_sum = 0, res_digit_count = 1,
           res_square = 0, res_cube = 0, res_square_root = Finite 0 0,
           res_digest_input = [48], res_valeur_gematria = 0 \<rparr> \<rparr>)"
proof -
  note sd = sequence_decimal [OF assms]
  have c1: "est_sequence_numerique db (strip arg) \<longrightarrow>
        46 \<in> set (strip arg)
        \<and> list_all (\<lambda>t. t \<noteq> [] \<and> list_all (\<lambda>c. decimal db c \<noteq> None) t)
            (split 46 (strip arg))"
    using sd by blast
  have c2: "est_sequence_numerique db (strip arg) \<longrightarrow>
        main db set_iter [prog, arg] =
          (case decoder_sequence_hebreu db (strip arg) of
             Inl e \<Rightarrow> Some (Failure e)
           | Inr mot_decode \<Rightarrow>
               rapport (Some mot_decode) (analyser_mot_hebreu db set_iter mot_decode))"
    by (simp add: main_def)
  have lit: "\<not> est_sequence_numerique db (strip arg) \<Longrightarrow>
        main db set_iter [prog, arg]
          = rapport None (analyser_mot_hebreu db set_iter (strip arg))"
    by (simp add: main_def)
  have c3: "\<not> (46 \<in> set (strip arg)
        \<and> list_all (\<lambda>t. t \<noteq> [] \<and> list_all (\<lambda>c. decimal db c \<noteq> None) t)
            (split 46 (strip arg))) \<longrightarrow>
        main db set_iter [prog, arg]
          = rapport None (analyser_mot_hebreu db set_iter (strip arg))"
    using lit sd by blast
  have c4: "main db set_iter [prog, arg] = Some (Report (Some d) r) \<longrightarrow>
        46 \<in> set (strip arg)
        \<and> list_all (\<lambda>t. t \<noteq> [] \<and> list_all (\<lambda>c. decimal db c \<noteq> None) t)
            (split 46 (strip arg))"
  proof
    assume m: "main db set_iter [prog, arg] = Some (Report (Some d) r)"
    have "est_sequence_numerique db (strip arg)"
    proof (rule ccontr)
      assume "\<not> est_sequence_numerique db (strip arg)"
      from lit [OF this] m show False
        by (auto simp: rapport_def split: option.splits sum.splits)
    qed
    then show "46 \<in> set (strip arg)
        \<and> list_all (\<lambda>t. t \<noteq> [] \<and> list_all (\<lambda>c. decimal db c \<noteq> None) t)
            (split 46 (strip arg))" by (rule sd)
  qed
  have c5: "list_all (\<lambda>c. 48 \<le> c \<and> c \<le> 57) arg \<longrightarrow>
        main db set_iter [prog, arg] = rapport None (analyser_mot_hebreu db set_iter arg)
        \<and> mot_vers_nombre arg = 0"
  proof
    assume "list_all (\<lambda>c. 48 \<le> c \<and> c \<le> 57) arg"
    from ascii_digits_literal [OF this]
    have l: "strip arg = arg" "46 \<notin> set arg" "mot_vers_nombre arg = 0" by simp_all
    then have "\<not> est_sequence_numerique db (strip arg)"
      by (simp add: est_sequence_numerique_def)
    from lit [OF this] l show "main db set_iter [prog, arg]
        = rapport None (analyser_mot_hebreu db set_iter arg) \<and> mot_vers_nombre arg = 0"
      by simp
  qed
  have s: "strip [53, 50] = [53, 50]" by (simp add: strip_def isspace_def)
  have n: "\<not> est_sequence_numerique db [53, 50]" by (simp add: est_sequence_numerique_def)
  have c6: "main db remdups [prog, [53, 50]] = Some (Report None
     \<lparr> res_mot_original = [53, 50], res_longueur_mot = 2,
       res_sequence_hebreu = [], res_valeur_numerique = 0,
       res_mot_decode = [], res_est_palindrome = True,
       res_nombre_lettres = 0, res_lettres_uniques = [],
       res_gematria_valeur_simple = 0, res_gematria_valeur_miloui = 0,
       res_gematria_description = [71, 101, 109, 97, 116, 114, 105, 97, 58, 32, 48],
       res_nombre =
         \<lparr> res_decimal = 0, res_parity_odd = False, res_factors = [0],
           res_prime = False, res_digit_sum = 0, res_digit_count = 1,
           res_square = 0, res_cube = 0, res_square_root = Finite 0 0,
           res_digest_input = [48], res_valeur_gematria = 0 \<rparr> \<rparr>)"
    by (simp add: main_def s n analyser_52_literal rapport_def)
  from c1 c2 c3 c4 c5 c6 show ?thesis by (intro conjI)
qed

theorem main_routing_witness:
  "main ucd_latin1 remdups [[], [53, 50]] = Some (Report None
     \<lparr> res_mot_original = [53, 50], res_longueur_mot = 2,
       res_sequence_hebreu = [], res_valeur_numerique = 0,
       res_mot_decode = [], res_est_palindrome = True,
       res_nombre_lettres = 0, res_lettres_uniques = [],
       res_gematria_valeur_simple = 0, res_gematria_valeur_miloui = 0,
       res_gematria_description = [71, 101, 109, 97, 116, 114, 105, 97, 58, 32, 48],
       res_nombre =
         \<lparr> res_decimal = 0, res_parity_odd = False, res_factors = [0],
           res_prime = False, res_digit_sum = 0, res_digit_count = 1,
           res_square = 0, res_cube = 0, res_square_root = Finite 0 0,
           res_digest_input = [48], res_valeur_gematria = 0 \<rparr> \<rparr>)
   \<and> mot_vers_nombre [53, 50] = 0
   \<and> est_sequence_numerique ucd_latin1 (strip [50, 49, 46, 49, 50, 46, 54, 46, 49, 51])
   \<and> 46 \<in> set (strip [50, 49, 46, 49, 50, 46, 54, 46, 49, 51])
   \<and> main ucd_latin1 remdups [[], [50, 49, 46, 49, 50, 46, 54, 46, 49, 51]] = Some (Report (Some [1513, 1500, 1493, 1502])
     \<lparr> res_mot_original = [1513, 1500, 1493, 1502], res_longueur_mot = 4,
       res_sequence_hebreu = [50, 49, 46, 49, 50, 46, 54, 46, 49, 51],
       res_valeur_numerique = 52,
       res_mot_decode = [1513, 1500, 1493, 1502],
       res_est_palindrome = False, res_nombre_lettres = 4,
       res_lettres_uniques = [1493, 1500, 1502, 1513],
       res_gematria_valeur_simple = 52, res_gematria_valeur_miloui = 52,
       res_gematria_description = [71, 101, 109, 97, 116, 114, 105, 97, 58, 32, 53, 50],
       res_nombre =
         \<lparr> res_decimal = 52, res_parity_odd = False,
           res_factors = [2, 2, 13], res_prime = False,
           res_digit_sum = 7, res_digit_count = 2, res_square = 2704,
           res_cube = 140608,
           res_square_root = Finite 8118979690322419 (- 50),
           res_digest_input = [53, 50], res_valeur_gematria = 52 \<rparr> \<rparr>)"
proof -
  have h1: "\<forall>c \<in> set [53, 50]. isdigit_cp ucd_latin1 c \<longrightarrow> decimal ucd_latin1 c \<noteq> None"
    by (simp add: decimal_def)
  have h2: "\<forall>c \<in> set [50, 49, 46, 49, 50, 46, 54, 46, 49, 51]. isdigit_cp ucd_latin1 c \<longrightarrow> decimal ucd_latin1 c \<noteq> None"
    by (simp add: decimal_def isdigit_cp_def)
  have dg: "list_all (\<lambda>c. 48 \<le> c \<and> c \<le> 57) [53, 50 :: nat]" by simp
  have s: "strip [50, 49, 46, 49, 50, 46, 54, 46, 49, 51] = [50, 49, 46, 49, 50, 46, 54, 46, 49, 51]"
    by (simp add: strip_def isspace_def)
  have c: "est_sequence_numerique ucd_latin1 (strip [50, 49, 46, 49, 50, 46, 54, 46, 49, 51])"
    by (simp add: s est_sequence_numerique_def isdigit_def isdigit_cp_def)
  have e: "main ucd_latin1 remdups [[], [50, 49, 46, 49, 50, 46, 54, 46, 49, 51]] = Some (Report (Some [1513, 1500, 1493, 1502])
     \<lparr> res_mot_original = [1513, 1500, 1493, 1502], res_longueur_mot = 4,
       res_sequence_hebreu = [50, 49, 46, 49, 50, 46, 54, 46, 49, 51],
       res_valeur_numerique = 52,
       res_mot_decode = [1513, 1500, 1493, 1502],
       res_est_palindrome = False, res_nombre_lettres = 4,
       res_lettres_uniques = [1493, 1500, 1502, 1513],
       res_gematria_valeur_simple = 52, res_gematria_valeur_miloui = 52,
       res_gematria_description = [71, 101, 109, 97, 116, 114, 105, 97, 58, 32, 53, 50],
       res_nombre =
         \<lparr> res_decimal = 52, res_parity_odd = False,
           res_factors = [2, 2, 13], res_prime = False,
           res_digit_sum = 7, res_digit_count = 2, res_square = 2704,
           res_cube = 140608,
           res_square_root = Finite 8118979690322419 (- 50),
           res_digest_input = [53, 50], res_valeur_gematria = 52 \<rparr> \<rparr>)"
    using c by (simp add: main_def s sequence_shalom analyser_shalom_decoded rapport_def)
  note t1 = main_routing [OF h1, of remdups "[]" "[]" undefined]
  note t2 = main_routing [OF h2, of remdups "[]" "[1513, 1500, 1493, 1502]"
     "\<lparr> res_mot_original = [1513, 1500, 1493, 1502], res_longueur_mot = 4,
       res_sequence_hebreu = [50, 49, 46, 49, 50, 46, 54, 46, 49, 51],
       res_valeur_numerique = 52,
       res_mot_decode = [1513, 1500, 1493, 1502],
       res_est_palindrome = False, res_nombre_lettres = 4,
       res_lettres_uniques = [1493, 1500, 1502, 1513],
       res_gematria_valeur_simple = 52, res_gematria_valeur_miloui = 52,
       res_gematria_description = [71, 101, 109, 97, 116, 114, 105, 97, 58, 32, 53, 50],
       res_nombre =
         \<lparr> res_decimal = 52, res_parity_odd = False,
           res_factors = [2, 2, 13], res_prime = False,
           res_digit_sum = 7, res_digit_count = 2, res_square = 2704,
           res_cube = 140608,
           res_square_root = Finite 8118979690322419 (- 50),
           res_digest_input = [53, 50], res_valeur_gematria = 52 \<rparr> \<rparr>"]
  from t1 dg have a: "main ucd_latin1 remdups [[], [53, 50]] = Some (Report None
     \<lparr> res_mot_original = [53, 50], res_longueur_mot = 2,
       res_sequence_hebreu = [], res_valeur_numerique = 0,
       res_mot_decode = [], res_est_palindrome = True,
       res_nombre_lettres = 0, res_lettres_uniques = [],
       res_gematria_valeur_simple = 0, res_gematria_valeur_miloui = 0,
       res_gematria_description = [71, 101, 109, 97, 116, 114, 105, 97, 58, 32, 48],
       res_nombre =
         \<lparr> res_decimal = 0, res_parity_odd = False, res_factors = [0],
           res_prime = False, res_digit_sum = 0, res_digit_count = 1,
           res_square = 0, res_cube = 0, res_square_root = Finite 0 0,
           res_digest_input = [48], res_valeur_gematria = 0 \<rparr> \<rparr>)" "mot_vers_nombre [53, 50] = 0"
    by blast+
  from t2 e have "46 \<in> set (strip [50, 49, 46, 49, 50, 46, 54, 46, 49, 51])" by blast
  with a c e show ?thesis by (intro conjI)
qed

end
